theory Spec2Isabelle
  imports Complex_Main "HOL-Library.Multiset"
begin

section \<open>Board model (GameBoard/board.py)\<close>

text \<open>
  A square of the grid holds \<open>None\<close>, \<open>'w'\<close>, \<open>'W'\<close>, \<open>'b'\<close> or \<open>'B'\<close>.
  The four piece symbols are the constructors \<open>Wman\<close> (\<open>'w'\<close>), \<open>Wking\<close> (\<open>'W'\<close>),
  \<open>Bman\<close> (\<open>'b'\<close>) and \<open>Bking\<close> (\<open>'B'\<close>); the two player symbols \<open>'w'\<close> and \<open>'b'\<close>
  are \<open>White\<close> and \<open>Black\<close>. Coordinates are Python integers, so a square is a pair of
  \<open>int\<close>; the grid is the list of rows that the class stores in \<open>self.Board\<close>.
\<close>

datatype side = White | Black

datatype piece = Wman | Wking | Bman | Bking

type_synonym square = "int \<times> int"

type_synonym grid = "piece option list list"

record gameboard =
  Board :: grid
  PlayerToMove :: side

record move =
  start :: square
  sequence :: "square list"
  captures :: "square list"

definition BOARD_SIZE :: int where
  "BOARD_SIZE = 8"

text \<open>\<open>piece.lower()\<close>, \<open>piece.isupper()\<close> and \<open>piece.islower()\<close> on the four symbols.\<close>

fun lower :: "piece \<Rightarrow> side" where
  "lower Wman = White"
| "lower Wking = White"
| "lower Bman = Black"
| "lower Bking = Black"

fun isupper :: "piece \<Rightarrow> bool" where
  "isupper Wking = True"
| "isupper Bking = True"
| "isupper _ = False"

definition islower :: "piece \<Rightarrow> bool" where
  "islower p = (\<not> isupper p)"

text \<open>\<open>OtherStuff.OpponentOf\<close>: \<open>'b' if player == 'w' else 'w'\<close>.\<close>

definition OpponentOf :: "side \<Rightarrow> side" where
  "OpponentOf player = (if player = White then Black else White)"

text \<open>
  \<open>self.Board[r][c]\<close> and \<open>self.Board[r][c] = v\<close>. Every index the class computes is
  either drawn from \<open>range(BOARD_SIZE)\<close> or guarded by \<open>_InBounds\<close>, so on a grid of
  eight rows of eight squares (\<open>wf_grid\<close>) no access leaves the lists; Python's
  IndexError and its wrap-around of negative indices are therefore only reachable
  through a grid of another shape or a move that no generator produced.
\<close>

fun cell :: "grid \<Rightarrow> square \<Rightarrow> piece option" where
  "cell g (r, c) = g ! nat r ! nat c"

fun put :: "grid \<Rightarrow> square \<Rightarrow> piece option \<Rightarrow> grid" where
  "put g (r, c) v = g[nat r := (g ! nat r)[nat c := v]]"

declare cell.simps [simp del] put.simps [simp del]

definition wf_grid :: "grid \<Rightarrow> bool" where
  "wf_grid g = (length g = 8 \<and> list_all (\<lambda>row. length row = 8) g)"

text \<open>\<open>range(self.BOARD_SIZE)\<close>, and the squares in the order of the nested loops
  \<open>for r in range(8): for c in range(8)\<close>.\<close>

definition board_range :: "int list" where
  "board_range = [0 .. BOARD_SIZE - 1]"

definition all_squares :: "square list" where
  "all_squares = concat (map (\<lambda>r. map (\<lambda>c. (r, c)) board_range) board_range)"

text \<open>\<open>_CreateStartingBoard\<close> and the constructor's default \<open>player_to_move = 'w'\<close>.\<close>

definition start_cell :: "int \<Rightarrow> int \<Rightarrow> piece option" where
  "start_cell r c =
     (if (r + c) mod 2 = 1 then
        (if r < 3 then Some Bman else if r > 4 then Some Wman else None)
      else None)"

definition CreateStartingBoard :: grid where
  "CreateStartingBoard = map (\<lambda>r. map (\<lambda>c. start_cell r c) board_range) board_range"

definition StartingGameBoard :: gameboard where
  "StartingGameBoard = \<lparr>Board = CreateStartingBoard, PlayerToMove = White\<rparr>"

text \<open>Two boards used as examples: the grid without pieces, and a white man on \<open>(3, 4)\<close>
  facing a black man on \<open>(2, 5)\<close> with \<open>(1, 6)\<close> empty, white to move.\<close>

definition empty_grid :: grid where
  "empty_grid = replicate 8 (replicate 8 None)"

definition scenario_board :: gameboard where
  "scenario_board =
     \<lparr>Board = put (put empty_grid (3, 4) (Some Wman)) (2, 5) (Some Bman), PlayerToMove = White\<rparr>"


text \<open>\<open>GetPiecesOfPlayer\<close>: the squares whose piece, lowered, is the player.\<close>

definition owned_by :: "grid \<Rightarrow> side \<Rightarrow> square \<Rightarrow> bool" where
  "owned_by g player sq = (case cell g sq of None \<Rightarrow> False | Some p \<Rightarrow> lower p = player)"

definition GetPiecesOfPlayer :: "gameboard \<Rightarrow> side \<Rightarrow> square list" where
  "GetPiecesOfPlayer bd player = filter (owned_by (Board bd) player) all_squares"

text \<open>\<open>GoalTest\<close>: the two \<open>any(...)\<close> scans, then white's emptiness is tested first.\<close>

definition GoalTest :: "gameboard \<Rightarrow> side option" where
  "GoalTest bd =
     (let w_pieces = list_ex (owned_by (Board bd) White) all_squares;
          b_pieces = list_ex (owned_by (Board bd) Black) all_squares
      in if \<not> w_pieces then Some Black
         else if \<not> b_pieces then Some White
         else None)"


subsection \<open>Move generation\<close>

text \<open>\<open>_InBounds\<close>, \<open>_IsOpponentPiece\<close> and \<open>_PieceDirections\<close>.\<close>

fun InBounds :: "square \<Rightarrow> bool" where
  "InBounds (r, c) = (0 \<le> r \<and> r < BOARD_SIZE \<and> 0 \<le> c \<and> c < BOARD_SIZE)"

declare InBounds.simps [simp del]

definition IsOpponentPiece :: "piece option \<Rightarrow> side \<Rightarrow> bool" where
  "IsOpponentPiece pc player = (case pc of None \<Rightarrow> False | Some p \<Rightarrow> lower p \<noteq> player)"

definition DIRS :: "(int \<times> int) list" where
  "DIRS = [(-1, -1), (-1, 1), (1, -1), (1, 1)]"

definition PieceDirections :: "piece option \<Rightarrow> (int \<times> int) list" where
  "PieceDirections pc =
     (case pc of
        None \<Rightarrow> []
      | Some p \<Rightarrow>
          if isupper p then [(-1, -1), (-1, 1), (1, -1), (1, 1)]
          else if p = Wman then [(-1, -1), (-1, 1)]
          else [(1, -1), (1, 1)])"

text \<open>
  One iteration of the direction loop of \<open>dfs_jumps\<close>: the jumped-over square
  \<open>(cur_r + dr, cur_c + dc)\<close>, the landing square \<open>(cur_r + 2*dr, cur_c + 2*dc)\<close>, and
  the chain of \<open>continue\<close> tests that decides whether the jump is taken. The local
  \<open>dirs\<close> of the source is computed and never read: the loop always runs over the four
  diagonals, for men as for kings.
\<close>

fun mid_sq :: "square \<Rightarrow> int \<times> int \<Rightarrow> square" where
  "mid_sq (r, c) (dr, dc) = (r + dr, c + dc)"

fun land_sq :: "square \<Rightarrow> int \<times> int \<Rightarrow> square" where
  "land_sq (r, c) (dr, dc) = (r + 2 * dr, c + 2 * dc)"

definition jump_ok :: "grid \<Rightarrow> side \<Rightarrow> square \<Rightarrow> square list \<Rightarrow> int \<times> int \<Rightarrow> bool" where
  "jump_ok g player cur captured_so_far d =
     (InBounds (mid_sq cur d) \<and> InBounds (land_sq cur d)
      \<and> \<not> (cell g (mid_sq cur d) = None \<or> cell g (land_sq cur d) \<noteq> None)
      \<and> mid_sq cur d \<notin> set captured_so_far
      \<and> IsOpponentPiece (cell g (mid_sq cur d)) player)"

text \<open>
  The temporary change of the grid made before the recursive call: the landing square
  receives the content of the current square, the current and the jumped-over square
  are emptied. The source writes these three squares into \<open>self.Board\<close> and writes the
  saved contents back after the call returns (lemma \<open>restore_jump_grid\<close> below), so the
  recursive call is the only reader of the changed grid; the model passes it by value.
\<close>

definition jump_grid :: "grid \<Rightarrow> square \<Rightarrow> int \<times> int \<Rightarrow> grid" where
  "jump_grid g cur d =
     put (put (put g (land_sq cur d) (cell g cur)) cur None) (mid_sq cur d) None"

definition restore_grid :: "grid \<Rightarrow> grid \<Rightarrow> square \<Rightarrow> int \<times> int \<Rightarrow> grid" where
  "restore_grid saved g cur d =
     put (put (put g cur (cell saved cur)) (mid_sq cur d) (cell saved (mid_sq cur d)))
       (land_sq cur d) (cell saved (land_sq cur d))"

definition uncaptured :: "square list \<Rightarrow> nat" where
  "uncaptured captured_so_far = length (filter (\<lambda>sq. sq \<notin> set captured_so_far) all_squares)"

lemma board_range_eq: "board_range = [0, 1, 2, 3, 4, 5, 6, 7]"
  unfolding board_range_def BOARD_SIZE_def by (simp add: upto.simps)

lemma set_all_squares: "set all_squares = {sq. InBounds sq}"
  by (force simp: all_squares_def board_range_def BOARD_SIZE_def InBounds.simps)

lemma uncaptured_less:
  assumes "InBounds m" and "m \<notin> set cs"
  shows "uncaptured (cs @ [m]) < uncaptured cs"
proof -
  have eq: "filter (\<lambda>sq. sq \<notin> set (cs @ [m])) all_squares
            = filter (\<lambda>sq. sq \<noteq> m) (filter (\<lambda>sq. sq \<notin> set cs) all_squares)"
    by (simp add: conj_commute)
  have "m \<in> set (filter (\<lambda>sq. sq \<notin> set cs) all_squares)"
    using assms by (simp add: set_all_squares)
  then have "length (filter (\<lambda>sq. sq \<noteq> m) (filter (\<lambda>sq. sq \<notin> set cs) all_squares))
             < length (filter (\<lambda>sq. sq \<notin> set cs) all_squares)"
    by (intro length_filter_less[where x = m]) simp_all
  then show ?thesis unfolding uncaptured_def eq .
qed

text \<open>
  \<open>dfs_jumps(cur_r, cur_c, captured_so_far, seq)\<close> with its closure variables \<open>player\<close>
  and \<open>(orig_r, orig_c)\<close> as arguments. \<open>dfs_dirs\<close> is the \<open>for (dr, dc) in ...\<close> loop
  over the directions still to try: it returns \<open>found_any\<close> and the moves appended to
  \<open>capture_moves\<close> by the recursive calls, in the order of the appends. A jump is only
  taken over a square that is not yet in \<open>captured_so_far\<close>, which bounds the depth.
\<close>

function dfs_jumps :: "grid \<Rightarrow> side \<Rightarrow> square \<Rightarrow> square \<Rightarrow> square list \<Rightarrow> square list \<Rightarrow> move list"
  and dfs_dirs :: "grid \<Rightarrow> side \<Rightarrow> square \<Rightarrow> square \<Rightarrow> square list \<Rightarrow> square list
                   \<Rightarrow> (int \<times> int) list \<Rightarrow> bool \<times> move list" where
  "dfs_jumps g player orig cur captured_so_far seq =
     (case dfs_dirs g player orig cur captured_so_far seq DIRS of
        (found_any, out) \<Rightarrow>
          if \<not> found_any \<and> captured_so_far \<noteq> []
          then out @ [\<lparr>start = orig, sequence = seq, captures = captured_so_far\<rparr>]
          else out)"
| "dfs_dirs g player orig cur captured_so_far seq [] = (False, [])"
| "dfs_dirs g player orig cur captured_so_far seq (d # ds) =
     (if jump_ok g player cur captured_so_far d then
        (True,
         dfs_jumps (jump_grid g cur d) player orig (land_sq cur d)
             (captured_so_far @ [mid_sq cur d]) (seq @ [land_sq cur d])
         @ snd (dfs_dirs g player orig cur captured_so_far seq ds))
      else dfs_dirs g player orig cur captured_so_far seq ds)"
  by pat_completeness auto
termination
  by (relation "measures
    [\<lambda>x. case x of Inl (g, p, orig, cur, cs, seq) \<Rightarrow> uncaptured cs
                  | Inr (g, p, orig, cur, cs, seq, ds) \<Rightarrow> uncaptured cs,
     \<lambda>x. case x of Inl _ \<Rightarrow> 5 | Inr (g, p, orig, cur, cs, seq, ds) \<Rightarrow> length ds]")
    (simp_all add: DIRS_def jump_ok_def uncaptured_less)

declare dfs_jumps.simps [simp del]

text \<open>The simple moves of one piece (the loop over \<open>_PieceDirections(piece)\<close>).\<close>

definition simple_moves :: "grid \<Rightarrow> square \<Rightarrow> move list" where
  "simple_moves g sq =
     map (\<lambda>d. \<lparr>start = sq, sequence = [mid_sq sq d], captures = []\<rparr>)
       (filter (\<lambda>d. InBounds (mid_sq sq d) \<and> cell g (mid_sq sq d) = None)
          (PieceDirections (cell g sq)))"

text \<open>
  The loop \<open>for (r, c) in self.GetPiecesOfPlayer(player)\<close>, carrying the two lists
  \<open>capture_moves\<close> and \<open>all_moves\<close>, and \<open>GenerateLegalMoves\<close> itself.
\<close>

fun gen_loop :: "grid \<Rightarrow> side \<Rightarrow> square list \<Rightarrow> move list \<Rightarrow> move list \<Rightarrow> move list \<times> move list" where
  "gen_loop g player [] capture_moves all_moves = (capture_moves, all_moves)"
| "gen_loop g player (sq # sqs) capture_moves all_moves =
     (let capture_moves' = capture_moves @ dfs_jumps g player sq sq [] [];
          all_moves' = (if \<not> list_ex (\<lambda>m. start m = sq) capture_moves'
                        then all_moves @ simple_moves g sq else all_moves)
      in gen_loop g player sqs capture_moves' all_moves')"

definition GenerateLegalMoves :: "gameboard \<Rightarrow> side \<Rightarrow> move list" where
  "GenerateLegalMoves bd player =
     (case gen_loop (Board bd) player (GetPiecesOfPlayer bd player) [] [] of
        (capture_moves, all_moves) \<Rightarrow>
          if capture_moves \<noteq> [] then capture_moves else all_moves)"


subsection \<open>Applying a move\<close>

text \<open>
  \<open>ApplyMove\<close> works on \<open>nb = self.Clone()\<close>, a deep copy; as a value the copy is the
  grid itself (the object store of the copy is modelled in the last section). The loop
  over \<open>move['sequence']\<close> keeps the last landing square, starting from the start square.
\<close>

definition last_landing :: "move \<Rightarrow> square" where
  "last_landing mv = fold (\<lambda>t last_sq. t) (sequence mv) (start mv)"

definition ApplyMove :: "gameboard \<Rightarrow> move \<Rightarrow> gameboard" where
  "ApplyMove bd mv =
     (let nb = Board bd;
          pc = cell nb (start mv);
          g1 = put nb (start mv) None;
          last_sq = last_landing mv;
          g2 = put g1 last_sq pc;
          g3 = fold (\<lambda>c g. put g c None) (captures mv) g2;
          g4 = (if pc = Some Wman \<and> fst last_sq = 0 then put g3 last_sq (Some Wking) else g3);
          g5 = (if pc = Some Bman \<and> fst last_sq = BOARD_SIZE - 1
                then put g4 last_sq (Some Bking) else g4)
      in \<lparr>Board = g5, PlayerToMove = OpponentOf (PlayerToMove bd)\<rparr>)"

subsection \<open>Static evaluation\<close>

text \<open>
  \<open>EvaluateFor\<close>. Python computes in binary floating point; the model computes the same
  expressions over the reals. One step of the double loop adds the value of the piece
  on the square to \<open>my_score\<close> or to \<open>opp_score\<close>.
\<close>

definition piece_val :: "piece \<Rightarrow> square \<Rightarrow> real" where
  "piece_val p sq =
     (if islower p then 1.0 else 1.8)
     + 0.05 * (3 - (\<bar>3.5 - of_int (fst sq)\<bar> + \<bar>3.5 - of_int (snd sq)\<bar>) / 2.0)"

definition eval_step :: "grid \<Rightarrow> side \<Rightarrow> square \<Rightarrow> real \<times> real \<Rightarrow> real \<times> real" where
  "eval_step g player sq acc =
     (case cell g sq of
        None \<Rightarrow> acc
      | Some p \<Rightarrow>
          if lower p = player then (fst acc + piece_val p sq, snd acc)
          else (fst acc, snd acc + piece_val p sq))"

definition EvaluateFor :: "gameboard \<Rightarrow> side \<Rightarrow> real" where
  "EvaluateFor bd player =
     (case fold (eval_step (Board bd) player) all_squares (0, 0) of
        (my_score, opp_score) \<Rightarrow>
          let my_moves = int (length (GenerateLegalMoves bd player));
              opp_moves = int (length (GenerateLegalMoves bd (OpponentOf player)));
              mobility_score = 0.1 * of_int (my_moves - opp_moves)
          in (my_score - opp_score) + mobility_score)"

text \<open>
  The same computation with every arithmetic result and every literal passed through
  a rounding function \<open>rnd\<close>, as floating-point arithmetic does; the integers involved
  are small and convert exactly. \<open>EvaluateFor\<close> is the case without rounding.
\<close>

definition piece_val_rounded :: "(real \<Rightarrow> real) \<Rightarrow> piece \<Rightarrow> square \<Rightarrow> real" where
  "piece_val_rounded rnd p sq =
     rnd ((if islower p then rnd 1.0 else rnd 1.8)
          + rnd (rnd 0.05 * rnd (3 - rnd (rnd (\<bar>rnd (rnd 3.5 - of_int (fst sq))\<bar>
                                              + \<bar>rnd (rnd 3.5 - of_int (snd sq))\<bar>) / 2.0))))"

definition eval_step_rounded ::
  "(real \<Rightarrow> real) \<Rightarrow> grid \<Rightarrow> side \<Rightarrow> square \<Rightarrow> real \<times> real \<Rightarrow> real \<times> real" where
  "eval_step_rounded rnd g player sq acc =
     (case cell g sq of
        None \<Rightarrow> acc
      | Some p \<Rightarrow>
          if lower p = player then (rnd (fst acc + piece_val_rounded rnd p sq), snd acc)
          else (fst acc, rnd (snd acc + piece_val_rounded rnd p sq)))"

definition EvaluateFor_rounded :: "(real \<Rightarrow> real) \<Rightarrow> gameboard \<Rightarrow> side \<Rightarrow> real" where
  "EvaluateFor_rounded rnd bd player =
     (case fold (eval_step_rounded rnd (Board bd) player) all_squares (0, 0) of
        (my_score, opp_score) \<Rightarrow>
          let my_moves = int (length (GenerateLegalMoves bd player));
              opp_moves = int (length (GenerateLegalMoves bd (OpponentOf player)));
              mobility_score = rnd (rnd 0.1 * of_int (my_moves - opp_moves))
          in rnd (rnd (my_score - opp_score) + mobility_score))"

section \<open>Properties of the board model\<close>

subsection \<open>Winner test\<close>

lemma all_squares_eq:
  "all_squares = concat (map (\<lambda>r. map (\<lambda>c. (r, c)) [0, 1, 2, 3, 4, 5, 6, 7]) [0, 1, 2, 3, 4, 5, 6, 7])"
  by (simp only: all_squares_def board_range_eq)

lemma list_ex_filter: "list_ex P xs \<longleftrightarrow> filter P xs \<noteq> []"
  by (induction xs) auto

text \<open>
  C10. With no white piece on the grid \<open>GoalTest\<close> answers \<open>'b'\<close>, also when there is no
  black piece either: in particular the grid without any piece is a win for black.
  \<open>GoalTest\<close> answers \<open>None\<close> exactly when each side owns at least one square.
\<close>

theorem GoalTest_white_emptiness_first:
  "(GetPiecesOfPlayer bd White = [] \<and> GetPiecesOfPlayer bd Black = [] \<longrightarrow> GoalTest bd = Some Black)
   \<and> (GoalTest bd = None \<longleftrightarrow>
        GetPiecesOfPlayer bd White \<noteq> [] \<and> GetPiecesOfPlayer bd Black \<noteq> [])"
  by (simp add: GoalTest_def GetPiecesOfPlayer_def list_ex_filter)

theorem GoalTest_white_emptiness_first_witness:
  "GetPiecesOfPlayer \<lparr>Board = empty_grid, PlayerToMove = White\<rparr> White = []
   \<and> GetPiecesOfPlayer \<lparr>Board = empty_grid, PlayerToMove = White\<rparr> Black = []
   \<and> GoalTest \<lparr>Board = empty_grid, PlayerToMove = White\<rparr> = Some Black"
proof -
  have w: "GetPiecesOfPlayer \<lparr>Board = empty_grid, PlayerToMove = White\<rparr> White = []"
    by code_simp
  have b: "GetPiecesOfPlayer \<lparr>Board = empty_grid, PlayerToMove = White\<rparr> Black = []"
    by code_simp
  from GoalTest_white_emptiness_first [of "\<lparr>Board = empty_grid, PlayerToMove = White\<rparr>"] w b
  show ?thesis by blast
qed

subsection \<open>Antisymmetry of the evaluation\<close>

lemma not_Black_iff: "s \<noteq> Black \<longleftrightarrow> s = White"
  by (cases s) simp_all

lemma not_White_iff: "s \<noteq> White \<longleftrightarrow> s = Black"
  by (cases s) simp_all

lemma eval_step_swap:
  "eval_step g White sq (a, b) = prod.swap (eval_step g Black sq (b, a))"
  by (cases "cell g sq") (auto simp: eval_step_def not_Black_iff)

lemma mobility_negate:
  "(a - b) + 0.1 * of_int (x - y) = - ((b - a) + 0.1 * of_int (y - x :: int) :: real)"
proof -
  have "(of_int (y - x) :: real) = - of_int (x - y)" by simp
  then show ?thesis by (simp only: mult_minus_right)
qed

lemma fold_eval_step_swap:
  "fold (eval_step g White) sqs (a, b) = prod.swap (fold (eval_step g Black) sqs (b, a))"
proof (induction sqs arbitrary: a b)
  case Nil
  show ?case by simp
next
  case (Cons sq sqs)
  obtain b' a' where st: "eval_step g Black sq (b, a) = (b', a')"
    by (cases "eval_step g Black sq (b, a)")
  then have "eval_step g White sq (a, b) = (a', b')"
    by (simp add: eval_step_swap)
  with st Cons.IH [of a' b'] show ?case by simp
qed

lemma EvaluateFor_rounded_exact: "EvaluateFor_rounded (\<lambda>x. x) bd player = EvaluateFor bd player"
proof -
  have "eval_step_rounded (\<lambda>x. x) g player = eval_step g player" for g
    by (auto simp: fun_eq_iff eval_step_rounded_def eval_step_def piece_val_rounded_def
          piece_val_def split: option.splits)
  then show ?thesis by (simp add: EvaluateFor_rounded_def EvaluateFor_def)
qed

lemma eval_step_rounded_swap:
  "eval_step_rounded rnd g White sq (a, b) = prod.swap (eval_step_rounded rnd g Black sq (b, a))"
  by (cases "cell g sq") (auto simp: eval_step_rounded_def not_Black_iff)

lemma fold_eval_step_rounded_swap:
  "fold (eval_step_rounded rnd g White) sqs (a, b)
     = prod.swap (fold (eval_step_rounded rnd g Black) sqs (b, a))"
proof (induction sqs arbitrary: a b)
  case Nil
  show ?case by simp
next
  case (Cons sq sqs)
  obtain b' a' where st: "eval_step_rounded rnd g Black sq (b, a) = (b', a')"
    by (cases "eval_step_rounded rnd g Black sq (b, a)")
  then have "eval_step_rounded rnd g White sq (a, b) = (a', b')"
    by (simp add: eval_step_rounded_swap)
  with st Cons.IH [of a' b'] show ?case by simp
qed

lemma rounded_negate:
  assumes "\<forall>x. rnd (- x) = - rnd x"
  shows "rnd (rnd (a - b) + rnd (c * of_int (x - y)))
         = - rnd (rnd (b - a) + rnd (c * of_int (y - x :: int)) :: real)"
proof -
  have 1: "rnd (a - b) = - rnd (b - a)"
    using assms [rule_format, of "b - a"] by simp
  have "c * of_int (x - y) = - (c * of_int (y - x))" by (simp add: algebra_simps)
  then have 2: "rnd (c * of_int (x - y)) = - rnd (c * of_int (y - x))"
    using assms [rule_format, of "c * of_int (y - x)"] by (simp only:)
  have "rnd (a - b) + rnd (c * of_int (x - y)) = - (rnd (b - a) + rnd (c * of_int (y - x)))"
    by (simp only: 1 2 minus_add_distrib)
  then show ?thesis
    using assms [rule_format, of "rnd (b - a) + rnd (c * of_int (y - x))"] by (simp only:)
qed

text \<open>
  C9. The evaluation from white's point of view is the negation of the evaluation
  from black's point of view, on every board; and this stays true when every
  arithmetic result is rounded, provided the rounding is symmetric under negation
  (as rounding to nearest is).
\<close>

theorem EvaluateFor_antisymmetric:
  "EvaluateFor bd White = - EvaluateFor bd Black
   \<and> ((\<forall>x. rnd (- x) = - rnd x) \<longrightarrow>
        EvaluateFor_rounded rnd bd White = - EvaluateFor_rounded rnd bd Black)"
proof
  obtain m o' where bl: "fold (eval_step (Board bd) Black) all_squares (0, 0) = (m, o')"
    by (cases "fold (eval_step (Board bd) Black) all_squares (0, 0)")
  then have wh: "fold (eval_step (Board bd) White) all_squares (0, 0) = (o', m)"
    by (simp add: fold_eval_step_swap)
  define w where "w = int (length (GenerateLegalMoves bd White))"
  define b where "b = int (length (GenerateLegalMoves bd Black))"
  have ew: "EvaluateFor bd White = (o' - m) + 0.1 * of_int (w - b)"
    by (simp add: EvaluateFor_def wh OpponentOf_def Let_def w_def b_def del: of_int_diff)
  have eb: "EvaluateFor bd Black = (m - o') + 0.1 * of_int (b - w)"
    by (simp add: EvaluateFor_def bl OpponentOf_def Let_def w_def b_def del: of_int_diff)
  show "EvaluateFor bd White = - EvaluateFor bd Black"
    unfolding ew eb by (rule mobility_negate)
next
  show "(\<forall>x. rnd (- x) = - rnd x) \<longrightarrow>
        EvaluateFor_rounded rnd bd White = - EvaluateFor_rounded rnd bd Black"
  proof
    assume odd: "\<forall>x. rnd (- x) = - rnd x"
    obtain m o' where bl: "fold (eval_step_rounded rnd (Board bd) Black) all_squares (0, 0) = (m, o')"
      by (cases "fold (eval_step_rounded rnd (Board bd) Black) all_squares (0, 0)")
    then have wh: "fold (eval_step_rounded rnd (Board bd) White) all_squares (0, 0) = (o', m)"
      by (simp add: fold_eval_step_rounded_swap)
    define w where "w = int (length (GenerateLegalMoves bd White))"
    define b where "b = int (length (GenerateLegalMoves bd Black))"
    have ew: "EvaluateFor_rounded rnd bd White = rnd (rnd (o' - m) + rnd (rnd 0.1 * of_int (w - b)))"
      by (simp add: EvaluateFor_rounded_def wh OpponentOf_def Let_def w_def b_def del: of_int_diff)
    have eb: "EvaluateFor_rounded rnd bd Black = rnd (rnd (m - o') + rnd (rnd 0.1 * of_int (b - w)))"
      by (simp add: EvaluateFor_rounded_def bl OpponentOf_def Let_def w_def b_def del: of_int_diff)
    show "EvaluateFor_rounded rnd bd White = - EvaluateFor_rounded rnd bd Black"
      unfolding ew eb by (rule rounded_negate [OF odd])
  qed
qed

text \<open>A rounding that is symmetric under negation: truncation to quarters.\<close>

definition quarters :: "real \<Rightarrow> real" where
  "quarters x = sgn x * of_int \<lfloor>\<bar>x\<bar> * 4\<rfloor> / 4"

theorem EvaluateFor_antisymmetric_witness:
  "EvaluateFor_rounded quarters scenario_board White
     = - EvaluateFor_rounded quarters scenario_board Black"
proof -
  have "\<forall>x. quarters (- x) = - quarters x" by (simp add: quarters_def sgn_minus)
  with EvaluateFor_antisymmetric [of scenario_board quarters] show ?thesis by blast
qed

subsection \<open>Mandatory capture\<close>

lemma dfs_found_any:
  "fst (dfs_dirs g p orig cur cs seq ds) \<longleftrightarrow> list_ex (jump_ok g p cur cs) ds"
  by (induction ds) simp_all

lemma dfs_dirs_none:
  "\<not> fst (dfs_dirs g p orig cur cs seq ds) \<Longrightarrow> snd (dfs_dirs g p orig cur cs seq ds) = []"
  by (induction ds) (simp_all split: if_splits)

lemma dfs_captures_nonempty:
  "list_all (\<lambda>m. captures m \<noteq> []) (dfs_jumps g p orig cur cs seq)"
  "list_all (\<lambda>m. captures m \<noteq> []) (snd (dfs_dirs g p orig cur cs seq ds))"
proof (induction g p orig cur cs seq and g p orig cur cs seq ds rule: dfs_jumps_dfs_dirs.induct)
  case (1 g p orig cur cs seq)
  then show ?case
    by (cases "dfs_dirs g p orig cur cs seq DIRS") (simp add: dfs_jumps.simps [of g p orig cur cs seq])
next
  case 2
  show ?case by simp
next
  case (3 g p orig cur cs seq d ds)
  then show ?case by simp
qed

lemma dfs_nonempty:
  "cs \<noteq> [] \<Longrightarrow> dfs_jumps g p orig cur cs seq \<noteq> []"
  "fst (dfs_dirs g p orig cur cs seq ds) \<Longrightarrow> snd (dfs_dirs g p orig cur cs seq ds) \<noteq> []"
proof (induction g p orig cur cs seq and g p orig cur cs seq ds rule: dfs_jumps_dfs_dirs.induct)
  case (1 g p orig cur cs seq)
  then show ?case
    by (cases "dfs_dirs g p orig cur cs seq DIRS") (auto simp add: dfs_jumps.simps [of g p orig cur cs seq])
next
  case 2
  then show ?case by simp
next
  case (3 g p orig cur cs seq d ds)
  then show ?case by (simp split: if_splits)
qed

lemma dfs_start_nonempty_iff:
  "dfs_jumps g p sq sq [] [] \<noteq> [] \<longleftrightarrow> (\<exists>d \<in> set DIRS. jump_ok g p sq [] d)"
proof -
  have out: "dfs_jumps g p sq sq [] [] = snd (dfs_dirs g p sq sq [] [] DIRS)"
    by (cases "dfs_dirs g p sq sq [] [] DIRS") (simp add: dfs_jumps.simps [of g p sq sq "[]" "[]"])
  show ?thesis
    unfolding out
    using dfs_nonempty(2) [of g p sq sq "[]" "[]" DIRS] dfs_dirs_none [of g p sq sq "[]" "[]" DIRS]
    by (auto simp: dfs_found_any list_ex_iff)
qed

lemma gen_loop_fst:
  "fst (gen_loop g p sqs cm am) = cm @ concat (map (\<lambda>sq. dfs_jumps g p sq sq [] []) sqs)"
  by (induction sqs arbitrary: cm am) (simp_all add: Let_def)

definition simple_shape :: "move \<Rightarrow> bool" where
  "simple_shape m = (captures m = [] \<and> length (sequence m) = 1)"

lemma simple_moves_shape: "list_all simple_shape (simple_moves g sq)"
  by (simp add: simple_moves_def simple_shape_def list_all_iff)

lemma gen_loop_snd:
  "list_all simple_shape am \<Longrightarrow> list_all simple_shape (snd (gen_loop g p sqs cm am))"
  by (induction sqs arbitrary: cm am) (simp_all add: Let_def simple_moves_shape)

definition all_jumps :: "gameboard \<Rightarrow> side \<Rightarrow> move list" where
  "all_jumps bd p = concat (map (\<lambda>sq. dfs_jumps (Board bd) p sq sq [] []) (GetPiecesOfPlayer bd p))"

lemma GenerateLegalMoves_cases:
  "GenerateLegalMoves bd p =
     (if all_jumps bd p \<noteq> [] then all_jumps bd p
      else snd (gen_loop (Board bd) p (GetPiecesOfPlayer bd p) [] []))"
proof -
  obtain cm am where gl: "gen_loop (Board bd) p (GetPiecesOfPlayer bd p) [] [] = (cm, am)"
    by (cases "gen_loop (Board bd) p (GetPiecesOfPlayer bd p) [] []")
  have "cm = all_jumps bd p"
    using gen_loop_fst [of "Board bd" p "GetPiecesOfPlayer bd p" "[]" "[]"] gl
    by (simp add: all_jumps_def)
  then show ?thesis by (simp add: GenerateLegalMoves_def gl)
qed

text \<open>A side has a capture when one of its pieces has a first jump on the board.\<close>

definition has_capture :: "gameboard \<Rightarrow> side \<Rightarrow> bool" where
  "has_capture bd player =
     list_ex (\<lambda>sq. list_ex (jump_ok (Board bd) player sq []) DIRS) (GetPiecesOfPlayer bd player)"

lemma has_capture_iff: "has_capture bd p \<longleftrightarrow> all_jumps bd p \<noteq> []"
proof -
  have "all_jumps bd p \<noteq> [] \<longleftrightarrow>
        (\<exists>sq \<in> set (GetPiecesOfPlayer bd p). dfs_jumps (Board bd) p sq sq [] [] \<noteq> [])"
    by (auto simp: all_jumps_def)
  also have "\<dots> \<longleftrightarrow> has_capture bd p"
    unfolding has_capture_def list_ex_iff dfs_start_nonempty_iff ..
  finally show ?thesis ..
qed

lemma all_jumps_captures: "list_all (\<lambda>m. captures m \<noteq> []) (all_jumps bd p)"
proof -
  have "\<forall>sq \<in> set (GetPiecesOfPlayer bd p).
          \<forall>m \<in> set (dfs_jumps (Board bd) p sq sq [] []). captures m \<noteq> []"
    using dfs_captures_nonempty(1) by (simp add: list_all_iff)
  then show ?thesis by (simp add: all_jumps_def list_all_iff)
qed

lemma captures_of_GenerateLegalMoves:
  assumes "has_capture bd p"
  shows "GenerateLegalMoves bd p \<noteq> []"
    and "list_all (\<lambda>m. captures m \<noteq> []) (GenerateLegalMoves bd p)"
proof -
  from assms have ne: "all_jumps bd p \<noteq> []" by (simp add: has_capture_iff)
  then have eq: "GenerateLegalMoves bd p = all_jumps bd p"
    by (simp add: GenerateLegalMoves_cases)
  show "GenerateLegalMoves bd p \<noteq> []" using ne by (simp add: eq)
  show "list_all (\<lambda>m. captures m \<noteq> []) (GenerateLegalMoves bd p)"
    by (simp add: eq all_jumps_captures)
qed

lemma simple_of_GenerateLegalMoves:
  assumes "\<not> has_capture bd p"
  shows "list_all simple_shape (GenerateLegalMoves bd p)"
proof -
  from assms have "all_jumps bd p = []" by (simp add: has_capture_iff)
  then have "GenerateLegalMoves bd p = snd (gen_loop (Board bd) p (GetPiecesOfPlayer bd p) [] [])"
    by (simp add: GenerateLegalMoves_cases)
  then show ?thesis by (simp add: gen_loop_snd)
qed

text \<open>
  C2. When some piece of the side has a jump, \<open>GenerateLegalMoves\<close> returns a non-empty
  list of moves that all capture; when no piece of the side has a jump, every returned
  move has an empty \<open>captures\<close> list. In either case the list never mixes the two kinds.
\<close>

theorem GenerateLegalMoves_mandatory_capture:
  "(has_capture bd player \<longrightarrow>
      GenerateLegalMoves bd player \<noteq> [] \<and> (\<forall>m \<in> set (GenerateLegalMoves bd player). captures m \<noteq> []))
   \<and> (\<not> has_capture bd player \<longrightarrow> (\<forall>m \<in> set (GenerateLegalMoves bd player). captures m = []))
   \<and> ((\<forall>m \<in> set (GenerateLegalMoves bd player). captures m \<noteq> [])
        \<or> (\<forall>m \<in> set (GenerateLegalMoves bd player). captures m = []))"
proof (cases "has_capture bd player")
  case True
  with captures_of_GenerateLegalMoves [OF True] show ?thesis
    by (simp add: list_all_iff)
next
  case False
  with simple_of_GenerateLegalMoves [OF False] show ?thesis
    by (simp add: list_all_iff simple_shape_def)
qed

theorem GenerateLegalMoves_mandatory_capture_witness:
  "has_capture scenario_board White
   \<and> GenerateLegalMoves scenario_board White \<noteq> []
   \<and> list_all (\<lambda>m. captures m \<noteq> []) (GenerateLegalMoves scenario_board White)
   \<and> \<not> has_capture StartingGameBoard White
   \<and> list_all (\<lambda>m. captures m = []) (GenerateLegalMoves StartingGameBoard White)"
proof -
  have a: "has_capture scenario_board White" by code_simp
  have b: "\<not> has_capture StartingGameBoard White" by code_simp
  from GenerateLegalMoves_mandatory_capture [of scenario_board White]
       GenerateLegalMoves_mandatory_capture [of StartingGameBoard White] a b
  show ?thesis by (simp add: list_all_iff)
qed


subsection \<open>Shape of the generated moves\<close>

text \<open>
  A list of landing squares and a list of captured squares form a chain of jumps from
  \<open>cur\<close> when they have the same length and each jump goes over the captured square
  to the landing square two steps along one of the four diagonals.
\<close>

fun jump_path :: "square \<Rightarrow> square list \<Rightarrow> square list \<Rightarrow> bool" where
  "jump_path cur [] [] = True"
| "jump_path cur (l # ls) (c # cs) =
     (list_ex (\<lambda>d. c = mid_sq cur d \<and> l = land_sq cur d) DIRS \<and> jump_path l ls cs)"
| "jump_path cur _ _ = False"

lemma jump_path_length: "jump_path cur ls cs \<Longrightarrow> length ls = length cs"
  by (induction cur ls cs rule: jump_path.induct) simp_all

lemma jump_path_snoc:
  "jump_path cur ls cs \<Longrightarrow> d \<in> set DIRS \<Longrightarrow>
   jump_path cur (ls @ [land_sq (last (cur # ls)) d]) (cs @ [mid_sq (last (cur # ls)) d])"
proof (induction cur ls cs rule: jump_path.induct)
  case (1 cur)
  then show ?case by (auto simp: list_ex_iff)
next
  case (2 cur l ls c cs)
  then show ?case by simp
qed simp_all

definition chain_shape :: "square \<Rightarrow> move \<Rightarrow> bool" where
  "chain_shape orig m = (start m = orig \<and> jump_path orig (sequence m) (captures m))"

lemma dfs_chain_shape:
  "jump_path orig seq cs \<Longrightarrow> cur = last (orig # seq) \<Longrightarrow>
     list_all (chain_shape orig) (dfs_jumps g p orig cur cs seq)"
  "jump_path orig seq cs \<Longrightarrow> cur = last (orig # seq) \<Longrightarrow> set ds \<subseteq> set DIRS \<Longrightarrow>
     list_all (chain_shape orig) (snd (dfs_dirs g p orig cur cs seq ds))"
proof (induction g p orig cur cs seq and g p orig cur cs seq ds rule: dfs_jumps_dfs_dirs.induct)
  case (1 g p orig cur cs seq)
  obtain fa out where d: "dfs_dirs g p orig cur cs seq DIRS = (fa, out)"
    by (cases "dfs_dirs g p orig cur cs seq DIRS")
  have "list_all (chain_shape orig) (snd (dfs_dirs g p orig cur cs seq DIRS))"
    by (rule "1.IH" [OF "1.prems"]) simp
  then have "list_all (chain_shape orig) out" by (simp add: d)
  moreover have "chain_shape orig \<lparr>start = orig, sequence = seq, captures = cs\<rparr>"
    using "1.prems"(1) by (simp add: chain_shape_def)
  ultimately show ?case
    by (simp add: dfs_jumps.simps [of g p orig cur cs seq] d)
next
  case 2
  show ?case by simp
next
  case (3 g p orig cur cs seq d ds)
  show ?case
  proof (cases "jump_ok g p cur cs d")
    case True
    have d: "d \<in> set DIRS" using "3.prems"(3) by simp
    have path: "jump_path orig (seq @ [land_sq cur d]) (cs @ [mid_sq cur d])"
      using jump_path_snoc [OF "3.prems"(1) d] "3.prems"(2) by simp
    have "list_all (chain_shape orig)
            (dfs_jumps (jump_grid g cur d) p orig (land_sq cur d) (cs @ [mid_sq cur d])
               (seq @ [land_sq cur d]))"
      using "3.IH"(1) [OF True path] by simp
    moreover have "list_all (chain_shape orig) (snd (dfs_dirs g p orig cur cs seq ds))"
      using "3.IH"(2) [OF True "3.prems"(1,2)] "3.prems"(3) by simp
    ultimately show ?thesis using True by simp
  next
    case False
    then show ?thesis using "3.IH"(3) [OF False "3.prems"(1,2)] "3.prems"(3) by simp
  qed
qed

lemma all_jumps_chain_shape:
  "list_all (\<lambda>m. jump_path (start m) (sequence m) (captures m)) (all_jumps bd p)"
proof -
  have "list_all (chain_shape sq) (dfs_jumps (Board bd) p sq sq [] [])" for sq
    by (rule dfs_chain_shape(1)) simp_all
  then show ?thesis
    by (auto simp: all_jumps_def list_all_iff chain_shape_def)
qed

text \<open>
  C8. A generated move with captures has as many landing squares as captured squares,
  the i-th landing square lying two diagonal steps from the previous one (the start
  square for the first) over the i-th captured square; a generated move without
  captures has exactly one landing square.
\<close>

theorem GenerateLegalMoves_move_shape:
  "\<forall>m \<in> set (GenerateLegalMoves bd player).
     (captures m \<noteq> [] \<longrightarrow>
        length (sequence m) = length (captures m)
        \<and> jump_path (start m) (sequence m) (captures m))
     \<and> (captures m = [] \<longrightarrow> length (sequence m) = 1)"
proof (cases "has_capture bd player")
  case True
  then have "GenerateLegalMoves bd player = all_jumps bd player"
    by (simp add: GenerateLegalMoves_cases has_capture_iff)
  with all_jumps_chain_shape [of bd player] all_jumps_captures [of bd player]
  show ?thesis by (auto simp: list_all_iff dest: jump_path_length)
next
  case False
  from simple_of_GenerateLegalMoves [OF False] show ?thesis
    by (simp add: list_all_iff simple_shape_def)
qed

theorem GenerateLegalMoves_move_shape_witness:
  "GenerateLegalMoves scenario_board White
     = [\<lparr>start = (3, 4), sequence = [(1, 6)], captures = [(2, 5)]\<rparr>]
   \<and> jump_path (3, 4) [(1, 6)] [(2, 5)]
   \<and> \<lparr>start = (5, 0), sequence = [(4, 1)], captures = []\<rparr>
       \<in> set (GenerateLegalMoves StartingGameBoard White)"
proof -
  have a: "GenerateLegalMoves scenario_board White
             = [\<lparr>start = (3, 4), sequence = [(1, 6)], captures = [(2, 5)]\<rparr>]"
    by code_simp
  have b: "hd (GenerateLegalMoves StartingGameBoard White)
             = \<lparr>start = (5, 0), sequence = [(4, 1)], captures = []\<rparr>"
    by code_simp
  have c: "GenerateLegalMoves StartingGameBoard White \<noteq> []" by code_simp
  from b c have d: "\<lparr>start = (5, 0), sequence = [(4, 1)], captures = []\<rparr>
       \<in> set (GenerateLegalMoves StartingGameBoard White)"
    by (metis hd_in_set)
  from GenerateLegalMoves_move_shape [of scenario_board White] a d
       GenerateLegalMoves_move_shape [of StartingGameBoard White]
  show ?thesis by simp
qed



subsection \<open>Reading and writing squares of a well-formed grid\<close>

lemma wf_grid_row: "wf_grid g \<Longrightarrow> InBounds (r, c) \<Longrightarrow> nat r < length g \<and> nat c < length (g ! nat r)"
  by (auto simp: wf_grid_def list_all_length BOARD_SIZE_def InBounds.simps)

lemma wf_put: "wf_grid g \<Longrightarrow> wf_grid (put g sq v)"
proof -
  assume wf: "wf_grid g"
  obtain r c where sq: "sq = (r, c)" by (cases sq)
  have "length ((put g sq v) ! n) = 8" if "n < 8" for n
  proof (cases "n = nat r")
    case True
    with that wf show ?thesis by (simp add: sq wf_grid_def list_all_length put.simps)
  next
    case False
    with that wf show ?thesis by (simp add: sq wf_grid_def list_all_length put.simps)
  qed
  with wf show ?thesis by (simp add: sq wf_grid_def list_all_length put.simps)
qed

lemma cell_put:
  assumes "wf_grid g" and "InBounds sq" and "InBounds sq'"
  shows "cell (put g sq v) sq' = (if sq' = sq then v else cell g sq')"
proof -
  obtain r c where sq: "sq = (r, c)" by (cases sq)
  obtain r' c' where sq': "sq' = (r', c')" by (cases sq')
  from assms(1,2) have b: "nat r < length g" "nat c < length (g ! nat r)"
    using wf_grid_row [of g r c] by (simp_all add: sq)
  from assms(2,3) have nn: "0 \<le> r" "0 \<le> c" "0 \<le> r'" "0 \<le> c'"
    by (simp_all add: sq sq' InBounds.simps)
  then have inj: "nat r' = nat r \<longleftrightarrow> r' = r" "nat c' = nat c \<longleftrightarrow> c' = c"
    "nat r = nat r' \<longleftrightarrow> r' = r" "nat c = nat c' \<longleftrightarrow> c' = c"
    by auto
  show ?thesis
  proof (cases "r' = r")
    case True
    with b inj show ?thesis by (simp add: sq sq' nth_list_update cell.simps put.simps)
  next
    case False
    with b inj show ?thesis by (simp add: sq sq' cell.simps put.simps)
  qed
qed

lemma wf_fold_clear: "wf_grid g \<Longrightarrow> wf_grid (fold (\<lambda>c g. put g c None) cs g)"
  by (induction cs arbitrary: g) (simp_all add: wf_put)

lemma cell_fold_clear:
  "wf_grid g \<Longrightarrow> \<forall>c \<in> set cs. InBounds c \<Longrightarrow> InBounds sq \<Longrightarrow>
   cell (fold (\<lambda>c g. put g c None) cs g) sq = (if sq \<in> set cs then None else cell g sq)"
proof (induction cs arbitrary: g)
  case Nil
  show ?case by simp
next
  case (Cons c cs)
  have "cell (fold (\<lambda>c g. put g c None) cs (put g c None)) sq
        = (if sq \<in> set cs then None else cell (put g c None) sq)"
    using Cons.prems by (intro Cons.IH) (simp_all add: wf_put)
  then show ?case using Cons.prems by (simp add: cell_put)
qed

lemma grid_ext:
  assumes "wf_grid g" and "wf_grid g'" and "\<And>sq. InBounds sq \<Longrightarrow> cell g sq = cell g' sq"
  shows "g = g'"
proof (rule nth_equalityI)
  show "length g = length g'" using assms(1,2) by (simp add: wf_grid_def)
next
  fix i assume i: "i < length g"
  then have i8: "i < 8" using assms(1) by (simp add: wf_grid_def)
  have li: "length (g ! i) = 8" "length (g' ! i) = 8"
    using assms(1,2) i i8 by (simp_all add: wf_grid_def list_all_length)
  show "g ! i = g' ! i"
  proof (rule nth_equalityI)
    show "length (g ! i) = length (g' ! i)" by (simp add: li)
  next
    fix j assume "j < length (g ! i)"
    then have j8: "j < 8" by (simp add: li)
    have "InBounds (int i, int j)" using i8 j8 by (simp add: BOARD_SIZE_def InBounds.simps)
    from assms(3) [OF this] show "g ! i ! j = g' ! i ! j" by (simp add: cell.simps)
  qed
qed

lemma dir_cases:
  "d \<in> set DIRS \<Longrightarrow> d = (-1, -1) \<or> d = (-1, 1) \<or> d = (1, -1) \<or> d = (1, 1)"
  by (simp add: DIRS_def)

lemma jump_squares_distinct:
  assumes "d \<in> set DIRS"
  shows "mid_sq cur d \<noteq> cur" "land_sq cur d \<noteq> cur" "mid_sq cur d \<noteq> land_sq cur d"
  using dir_cases [OF assms] by (cases cur; auto)+

text \<open>The three writes that \<open>dfs_jumps\<close> makes after the recursive call undo the three
  writes it made before it.\<close>

lemma restore_jump_grid:
  assumes "wf_grid g" and "d \<in> set DIRS" and "InBounds cur"
    and "InBounds (mid_sq cur d)" and "InBounds (land_sq cur d)"
  shows "restore_grid g (jump_grid g cur d) cur d = g"
proof (rule grid_ext)
  show "wf_grid (restore_grid g (jump_grid g cur d) cur d)"
    using assms(1) by (simp add: restore_grid_def jump_grid_def wf_put)
  show "wf_grid g" by fact
  fix sq assume "InBounds sq"
  then show "cell (restore_grid g (jump_grid g cur d) cur d) sq = cell g sq"
    using assms jump_squares_distinct [OF assms(2), of cur]
    by (simp add: restore_grid_def jump_grid_def wf_put cell_put)
qed


subsection \<open>The grid during a chain of jumps\<close>

text \<open>
  \<open>track g0 orig g cur cs\<close> relates the grid \<open>g\<close> that \<open>dfs_jumps\<close> sees after some
  jumps to the grid \<open>g0\<close> of the board: the piece of the start square \<open>orig\<close> stands on
  \<open>cur\<close>, the start square and the captured squares \<open>cs\<close> are empty, every other
  square is as on the board. Landing squares keep the row parity of the start square,
  captured squares have the other parity.
\<close>

definition track :: "grid \<Rightarrow> square \<Rightarrow> grid \<Rightarrow> square \<Rightarrow> square list \<Rightarrow> bool" where
  "track g0 orig g cur cs \<longleftrightarrow>
     wf_grid g \<and> InBounds cur \<and> even (fst cur - fst orig)
     \<and> (\<forall>c \<in> set cs. InBounds c \<and> odd (fst c - fst orig))
     \<and> (cur = orig \<or> cell g0 cur = None)
     \<and> (\<forall>sq. InBounds sq \<longrightarrow>
           cell g sq = (if sq = cur then cell g0 orig
                        else if sq = orig \<or> sq \<in> set cs then None else cell g0 sq))"

lemma track_init: "wf_grid g0 \<Longrightarrow> InBounds orig \<Longrightarrow> track g0 orig g0 orig []"
  by (simp add: track_def)

lemma track_not_captured: "track g0 orig g cur cs \<Longrightarrow> cur \<notin> set cs \<and> orig \<notin> set cs"
  by (auto simp: track_def)

lemma dir_fst_odd: "d \<in> set DIRS \<Longrightarrow> odd (fst d)"
  by (auto dest: dir_cases)

lemma fst_mid_sq: "fst (mid_sq cur d) = fst cur + fst d"
  by (cases cur; cases d) simp

lemma fst_land_sq: "fst (land_sq cur d) = fst cur + 2 * fst d"
  by (cases cur; cases d) simp

lemma trackD:
  assumes "track g0 orig g cur cs"
  shows "wf_grid g" and "InBounds cur" and "even (fst cur - fst orig)"
    and "\<And>c. c \<in> set cs \<Longrightarrow> InBounds c \<and> odd (fst c - fst orig)"
    and "cur = orig \<or> cell g0 cur = None"
    and "\<And>sq. InBounds sq \<Longrightarrow>
           cell g sq = (if sq = cur then cell g0 orig
                        else if sq = orig \<or> sq \<in> set cs then None else cell g0 sq)"
proof -
  from assms have a: "wf_grid g \<and> InBounds cur \<and> even (fst cur - fst orig)
     \<and> (\<forall>c \<in> set cs. InBounds c \<and> odd (fst c - fst orig))
     \<and> (cur = orig \<or> cell g0 cur = None)
     \<and> (\<forall>sq. InBounds sq \<longrightarrow>
           cell g sq = (if sq = cur then cell g0 orig
                        else if sq = orig \<or> sq \<in> set cs then None else cell g0 sq))"
    unfolding track_def .
  from a show "wf_grid g" by (elim conjE)
  from a show "InBounds cur" by (elim conjE)
  from a show "even (fst cur - fst orig)" by (elim conjE)
  from a show "\<And>c. c \<in> set cs \<Longrightarrow> InBounds c \<and> odd (fst c - fst orig)"
    by (elim conjE) (erule bspec)
  from a show "cur = orig \<or> cell g0 cur = None" by (elim conjE)
  fix sq assume "InBounds sq"
  moreover from a have "\<forall>sq. InBounds sq \<longrightarrow>
           cell g sq = (if sq = cur then cell g0 orig
                        else if sq = orig \<or> sq \<in> set cs then None else cell g0 sq)"
    by (elim conjE)
  ultimately show "cell g sq = (if sq = cur then cell g0 orig
                        else if sq = orig \<or> sq \<in> set cs then None else cell g0 sq)"
    by (elim allE impE) 
qed


lemma trackI:
  assumes "wf_grid g" and "InBounds cur" and "even (fst cur - fst orig)"
    and "\<And>c. c \<in> set cs \<Longrightarrow> InBounds c \<and> odd (fst c - fst orig)"
    and "cur = orig \<or> cell g0 cur = None"
    and "\<And>sq. InBounds sq \<Longrightarrow>
           cell g sq = (if sq = cur then cell g0 orig
                        else if sq = orig \<or> sq \<in> set cs then None else cell g0 sq)"
  shows "track g0 orig g cur cs"
  unfolding track_def using assms by blast

lemma jump_grid_cell:
  assumes "wf_grid g" and "InBounds cur" and "InBounds (mid_sq cur d)"
    and "InBounds (land_sq cur d)" and "InBounds sq"
  shows "cell (jump_grid g cur d) sq =
            (if sq = mid_sq cur d then None else if sq = cur then None
             else if sq = land_sq cur d then cell g cur else cell g sq)"
  using assms by (simp add: jump_grid_def cell_put wf_put)

lemma track_step:
  assumes t: "track g0 orig g cur cs" and d: "d \<in> set DIRS" and j: "jump_ok g p cur cs d"
  shows "track g0 orig (jump_grid g cur d) (land_sq cur d) (cs @ [mid_sq cur d])"
proof (rule trackI)
  let ?m = "mid_sq cur d" and ?l = "land_sq cur d"
  from j have bm: "InBounds ?m" and bl: "InBounds ?l" and el: "cell g ?l = None"
    by (simp_all add: jump_ok_def)
  note wf = trackD(1) [OF t] and bc = trackD(2) [OF t] and ev = trackD(3) [OF t]
    and cs = trackD(4) [OF t] and oc = trackD(5) [OF t] and cells = trackD(6) [OF t]
  note dist = jump_squares_distinct [OF d, of cur]
  show "wf_grid (jump_grid g cur d)"
    using wf by (simp add: jump_grid_def wf_put)
  show "InBounds ?l" by fact
  show evl: "even (fst ?l - fst orig)"
    using ev by (simp add: fst_land_sq)
  have oddm: "odd (fst ?m - fst orig)"
    using ev dir_fst_odd [OF d] by (simp add: fst_mid_sq)
  show "InBounds c \<and> odd (fst c - fst orig)" if "c \<in> set (cs @ [?m])" for c
  proof (cases "c = ?m")
    case True
    with bm oddm show ?thesis by simp
  next
    case False
    with that have "c \<in> set cs" by simp
    then show ?thesis by (rule cs)
  qed
  have lcs: "?l \<notin> set cs"
  proof
    assume "?l \<in> set cs"
    from cs [OF this] evl show False by simp
  qed
  have "cell g ?l = (if ?l = orig \<or> ?l \<in> set cs then None else cell g0 ?l)"
    using cells [OF bl] dist(2) by simp
  with el lcs show ol: "?l = orig \<or> cell g0 ?l = None"
    by (cases "?l = orig") simp_all
  have gc: "cell g cur = cell g0 orig" using cells [OF bc] by simp
  show "cell (jump_grid g cur d) sq =
          (if sq = ?l then cell g0 orig
           else if sq = orig \<or> sq \<in> set (cs @ [?m]) then None else cell g0 sq)"
    if b: "InBounds sq" for sq
  proof -
    note jc = jump_grid_cell [OF wf bc bm bl b]
    consider "sq = ?m" | "sq = cur" | "sq = ?l" | "sq \<noteq> ?m" "sq \<noteq> cur" "sq \<noteq> ?l"
      by blast
    then show ?thesis
    proof cases
      case 1
      with dist show ?thesis unfolding jc by simp
    next
      case 2
      have "sq \<noteq> ?m" "sq \<noteq> ?l" using 2 dist by simp_all
      moreover have "cur \<noteq> orig \<Longrightarrow> cell g0 cur = None" using oc by blast
      ultimately show ?thesis unfolding jc using 2 by simp
    next
      case 3
      with dist gc show ?thesis unfolding jc by simp
    next
      case 4
      then show ?thesis unfolding jc using cells [OF b] by simp
    qed
  qed
qed

text \<open>A move is settled when the grid reached by its jumps offers no further jump.\<close>

definition settled :: "grid \<Rightarrow> side \<Rightarrow> move \<Rightarrow> bool" where
  "settled g0 p m \<longleftrightarrow>
     (\<exists>g. track g0 (start m) g (last (start m # sequence m)) (captures m)
          \<and> (\<forall>d \<in> set DIRS. \<not> jump_ok g p (last (start m # sequence m)) (captures m) d))"

lemma dfs_settled:
  "track g0 orig g cur cs \<Longrightarrow> cur = last (orig # seq) \<Longrightarrow>
     list_all (settled g0 p) (dfs_jumps g p orig cur cs seq)"
  "track g0 orig g cur cs \<Longrightarrow> cur = last (orig # seq) \<Longrightarrow> set ds \<subseteq> set DIRS \<Longrightarrow>
     list_all (settled g0 p) (snd (dfs_dirs g p orig cur cs seq ds))"
proof (induction g p orig cur cs seq and g p orig cur cs seq ds rule: dfs_jumps_dfs_dirs.induct)
  case (1 g p orig cur cs seq)
  obtain fa out where d: "dfs_dirs g p orig cur cs seq DIRS = (fa, out)"
    by (cases "dfs_dirs g p orig cur cs seq DIRS")
  have "list_all (settled g0 p) (snd (dfs_dirs g p orig cur cs seq DIRS))"
    by (rule "1.IH" [OF "1.prems"]) simp
  then have out: "list_all (settled g0 p) out" by (simp add: d)
  show ?case
  proof (cases "\<not> fa \<and> cs \<noteq> []")
    case True
    then have "\<not> list_ex (jump_ok g p cur cs) DIRS"
      using dfs_found_any [of g p orig cur cs seq DIRS] d by simp
    then have "\<forall>d \<in> set DIRS. \<not> jump_ok g p cur cs d" by (simp add: list_ex_iff)
    then have "settled g0 p \<lparr>start = orig, sequence = seq, captures = cs\<rparr>"
      unfolding settled_def using "1.prems" by (intro exI [of _ g]) simp
    with out True show ?thesis
      by (simp add: dfs_jumps.simps [of g p orig cur cs seq] d)
  next
    case False
    with out show ?thesis
      by (auto simp add: dfs_jumps.simps [of g p orig cur cs seq] d)
  qed
next
  case 2
  show ?case by simp
next
  case (3 g p orig cur cs seq d ds)
  show ?case
  proof (cases "jump_ok g p cur cs d")
    case True
    have d: "d \<in> set DIRS" using "3.prems"(3) by simp
    have tr: "track g0 orig (jump_grid g cur d) (land_sq cur d) (cs @ [mid_sq cur d])"
      by (rule track_step [OF "3.prems"(1) d True])
    have "list_all (settled g0 p)
            (dfs_jumps (jump_grid g cur d) p orig (land_sq cur d) (cs @ [mid_sq cur d])
               (seq @ [land_sq cur d]))"
      using "3.IH"(1) [OF True tr] by simp
    moreover have "list_all (settled g0 p) (snd (dfs_dirs g p orig cur cs seq ds))"
      using "3.IH"(2) [OF True "3.prems"(1,2)] "3.prems"(3) by simp
    ultimately show ?thesis using True by simp
  next
    case False
    then show ?thesis using "3.IH"(3) [OF False "3.prems"(1,2)] "3.prems"(3) by simp
  qed
qed

lemma InBounds_pieces: "sq \<in> set (GetPiecesOfPlayer bd p) \<Longrightarrow> InBounds sq \<and> owned_by (Board bd) p sq"
  by (simp add: GetPiecesOfPlayer_def set_all_squares)

lemma all_jumps_settled:
  assumes "wf_grid (Board bd)"
  shows "list_all (\<lambda>m. settled (Board bd) p m \<and> start m \<in> set (GetPiecesOfPlayer bd p))
           (all_jumps bd p)"
proof -
  have "list_all (settled (Board bd) p) (dfs_jumps (Board bd) p sq sq [] [])"
    if "sq \<in> set (GetPiecesOfPlayer bd p)" for sq
    using assms InBounds_pieces [OF that] by (intro dfs_settled(1) track_init) simp_all
  moreover have "list_all (chain_shape sq) (dfs_jumps (Board bd) p sq sq [] [])" for sq
    by (rule dfs_chain_shape(1)) simp_all
  ultimately show ?thesis
    by (auto simp: all_jumps_def list_all_iff chain_shape_def)
qed


subsection \<open>Legal moves on a well-formed grid\<close>

lemma last_landing_eq: "last_landing m = last (start m # sequence m)"
proof -
  have "fold (\<lambda>t last_sq. t) xs s = last (s # xs)" for xs and s :: square
    by (induction xs arbitrary: s) simp_all
  then show ?thesis by (simp add: last_landing_def)
qed

text \<open>What \<open>ApplyMove\<close> leaves on each square of the grid, for a move whose squares
  are on the grid.\<close>

definition crowned :: "piece option \<Rightarrow> square \<Rightarrow> piece option" where
  "crowned pc sq =
     (if pc = Some Wman \<and> fst sq = 0 then Some Wking
      else if pc = Some Bman \<and> fst sq = BOARD_SIZE - 1 then Some Bking
      else pc)"

lemma ApplyMove_cell:
  assumes wf: "wf_grid (Board bd)" and bs: "InBounds (start m)" and bl: "InBounds (last_landing m)"
    and bc: "\<forall>c \<in> set (captures m). InBounds c" and b: "InBounds sq"
    and lc: "last_landing m \<notin> set (captures m)"
  shows "cell (Board (ApplyMove bd m)) sq =
           (if sq = last_landing m then crowned (cell (Board bd) (start m)) (last_landing m)
            else if sq \<in> set (captures m) \<or> sq = start m then None
            else cell (Board bd) sq)"
proof -
  define pc where "pc = cell (Board bd) (start m)"
  define l where "l = last_landing m"
  define g2 where "g2 = put (put (Board bd) (start m) None) l pc"
  define g3 where "g3 = fold (\<lambda>c g. put g c None) (captures m) g2"
  define g4 where "g4 = (if pc = Some Wman \<and> fst l = 0 then put g3 l (Some Wking) else g3)"
  define g5 where "g5 = (if pc = Some Bman \<and> fst l = BOARD_SIZE - 1
                         then put g4 l (Some Bking) else g4)"
  have bd: "Board (ApplyMove bd m) = g5"
    by (simp add: ApplyMove_def Let_def g5_def g4_def g3_def g2_def l_def pc_def)
  have bl': "InBounds l" using bl by (simp add: l_def)
  have wf2: "wf_grid g2" using wf by (simp add: g2_def wf_put)
  have wf3: "wf_grid g3" unfolding g3_def using wf2 by (rule wf_fold_clear)
  have wf4: "wf_grid g4" using wf3 by (simp add: g4_def wf_put)
  have c2: "cell g2 sq = (if sq = l then pc else if sq = start m then None else cell (Board bd) sq)"
    unfolding g2_def using wf bs bl' b by (simp add: cell_put wf_put)
  have c3: "cell g3 sq = (if sq \<in> set (captures m) then None else cell g2 sq)"
    unfolding g3_def using wf2 bc b by (rule cell_fold_clear)
  have c4: "cell g4 sq = (if sq = l \<and> pc = Some Wman \<and> fst l = 0 then Some Wking else cell g3 sq)"
    using wf3 bl' b by (simp add: g4_def cell_put)
  have c5: "cell g5 sq = (if sq = l \<and> pc = Some Bman \<and> fst l = BOARD_SIZE - 1
                          then Some Bking else cell g4 sq)"
    using wf4 bl' b by (simp add: g5_def cell_put)
  have "cell g5 sq = (if sq = l then crowned pc l
            else if sq \<in> set (captures m) \<or> sq = start m then None
            else cell (Board bd) sq)"
    using lc unfolding c5 c4 c3 c2 crowned_def l_def [symmetric] by auto
  then show ?thesis by (simp only: bd pc_def l_def)
qed

text \<open>The squares of a generated move.\<close>

definition on_grid :: "gameboard \<Rightarrow> side \<Rightarrow> move \<Rightarrow> bool" where
  "on_grid bd p m \<longleftrightarrow>
     InBounds (start m) \<and> owned_by (Board bd) p (start m) \<and> sequence m \<noteq> []
     \<and> InBounds (last (sequence m)) \<and> (\<forall>c \<in> set (captures m). InBounds c)
     \<and> last (sequence m) \<notin> set (captures m)
     \<and> (captures m = [] \<longrightarrow> last (sequence m) \<noteq> start m)"

lemma PieceDirections_DIRS: "set (PieceDirections pc) \<subseteq> set DIRS"
  by (auto simp: PieceDirections_def DIRS_def split: option.splits)

lemma simple_moves_on_grid:
  assumes "InBounds sq" and "owned_by (Board bd) p sq"
  shows "list_all (on_grid bd p) (simple_moves (Board bd) sq)"
proof -
  have "mid_sq sq d \<noteq> sq" if "d \<in> set (PieceDirections (cell (Board bd) sq))" for d
    using jump_squares_distinct(1) [of d sq] PieceDirections_DIRS that by blast
  with assms show ?thesis
    by (auto simp: simple_moves_def list_all_iff on_grid_def)
qed

lemma gen_loop_on_grid:
  "list_all (on_grid bd p) am \<Longrightarrow> \<forall>sq \<in> set sqs. InBounds sq \<and> owned_by (Board bd) p sq \<Longrightarrow>
   list_all (on_grid bd p) (snd (gen_loop (Board bd) p sqs cm am))"
  by (induction sqs arbitrary: cm am) (simp_all add: Let_def simple_moves_on_grid)

lemma settled_on_grid:
  assumes s: "settled (Board bd) p m" and c: "captures m \<noteq> []"
    and j: "jump_path (start m) (sequence m) (captures m)"
    and o: "start m \<in> set (GetPiecesOfPlayer bd p)"
  shows "on_grid bd p m"
proof -
  from s obtain g where t: "track (Board bd) (start m) g (last (start m # sequence m)) (captures m)"
    unfolding settled_def by blast
  from jump_path_length [OF j] c have ne: "sequence m \<noteq> []" by auto
  then have l: "last (start m # sequence m) = last (sequence m)" by simp
  from trackD(2) [OF t] have "InBounds (last (sequence m))" by (simp only: l)
  moreover have "last (sequence m) \<notin> set (captures m)"
    using track_not_captured [OF t] unfolding l by blast
  moreover have "\<forall>c \<in> set (captures m). InBounds c" using trackD(4) [OF t] by blast
  ultimately show ?thesis
    using InBounds_pieces [OF o] ne c by (simp add: on_grid_def)
qed

lemma GenerateLegalMoves_on_grid:
  assumes wf: "wf_grid (Board bd)" and m: "m \<in> set (GenerateLegalMoves bd p)"
  shows "on_grid bd p m"
proof (cases "has_capture bd p")
  case True
  then have eq: "GenerateLegalMoves bd p = all_jumps bd p"
    by (simp add: GenerateLegalMoves_cases has_capture_iff)
  from m all_jumps_settled [OF wf, of p] all_jumps_chain_shape [of bd p]
       all_jumps_captures [of bd p]
  show ?thesis
    unfolding eq list_all_iff by (intro settled_on_grid) blast+
next
  case False
  then have "GenerateLegalMoves bd p = snd (gen_loop (Board bd) p (GetPiecesOfPlayer bd p) [] [])"
    by (simp add: GenerateLegalMoves_cases has_capture_iff)
  moreover have "list_all (on_grid bd p) (snd (gen_loop (Board bd) p (GetPiecesOfPlayer bd p) [] []))"
    by (rule gen_loop_on_grid) (simp_all add: InBounds_pieces)
  ultimately show ?thesis using m by (simp add: list_all_iff)
qed

lemma cells_agree_after_move:
  assumes wf: "wf_grid (Board bd)" and og: "on_grid bd p m"
    and t: "track (Board bd) (start m) g (last (sequence m)) (captures m)"
    and b: "InBounds sq" and ne: "sq \<noteq> last (sequence m)"
  shows "cell (Board (ApplyMove bd m)) sq = cell g sq"
proof -
  from og have seq: "sequence m \<noteq> []" by (simp add: on_grid_def)
  then have l: "last_landing m = last (sequence m)" by (simp add: last_landing_eq)
  have "cell (Board (ApplyMove bd m)) sq =
          (if sq = last_landing m then crowned (cell (Board bd) (start m)) (last_landing m)
           else if sq \<in> set (captures m) \<or> sq = start m then None
           else cell (Board bd) sq)"
    using og by (intro ApplyMove_cell [OF wf _ _ _ b]) (simp_all add: on_grid_def l)
  with trackD(6) [OF t b] ne show ?thesis by (auto simp: l)
qed

text \<open>
  C4. After a generated capture move has been applied, no jump is available from its
  final landing square in any of the four directions: the chain could not have been
  extended.
\<close>

theorem capture_moves_maximal:
  assumes wf: "wf_grid (Board bd)" and m: "m \<in> set (GenerateLegalMoves bd player)"
    and c: "captures m \<noteq> []"
  shows "\<forall>d \<in> set DIRS. \<not> jump_ok (Board (ApplyMove bd m)) player (last (sequence m)) [] d"
proof
  fix d assume d: "d \<in> set DIRS"
  let ?l = "last (sequence m)"
  note og = GenerateLegalMoves_on_grid [OF wf m]
  then have seq: "sequence m \<noteq> []" by (simp add: on_grid_def)
  have hc: "has_capture bd player"
  proof (rule ccontr)
    assume "\<not> has_capture bd player"
    from simple_of_GenerateLegalMoves [OF this] m c show False
      by (simp add: list_all_iff simple_shape_def)
  qed
  then have "GenerateLegalMoves bd player = all_jumps bd player"
    by (simp add: GenerateLegalMoves_cases has_capture_iff)
  with m all_jumps_settled [OF wf, of player] have "settled (Board bd) player m"
    by (simp add: list_all_iff)
  then obtain g where t: "track (Board bd) (start m) g ?l (captures m)"
    and nj: "\<not> jump_ok g player ?l (captures m) d"
    unfolding settled_def using seq d by auto
  show "\<not> jump_ok (Board (ApplyMove bd m)) player ?l [] d"
  proof
    assume j: "jump_ok (Board (ApplyMove bd m)) player ?l [] d"
    then have bm: "InBounds (mid_sq ?l d)" and bl: "InBounds (land_sq ?l d)"
      by (simp_all add: jump_ok_def)
    note dist = jump_squares_distinct [OF d, of ?l]
    have em: "cell (Board (ApplyMove bd m)) (mid_sq ?l d) = cell g (mid_sq ?l d)"
      by (rule cells_agree_after_move [OF wf og t bm dist(1)])
    have el: "cell (Board (ApplyMove bd m)) (land_sq ?l d) = cell g (land_sq ?l d)"
      by (rule cells_agree_after_move [OF wf og t bl dist(2)])
    from j have occ: "cell g (mid_sq ?l d) \<noteq> None"
      by (simp add: jump_ok_def em)
    have "mid_sq ?l d \<notin> set (captures m)"
    proof
      assume "mid_sq ?l d \<in> set (captures m)"
      with trackD(6) [OF t bm] dist(1) have "cell g (mid_sq ?l d) = None" by simp
      with occ show False by simp
    qed
    with j have "jump_ok g player ?l (captures m) d"
      by (simp add: jump_ok_def em el)
    with nj show False by simp
  qed
qed

definition scenario_move :: move where
  "scenario_move = \<lparr>start = (3, 4), sequence = [(1, 6)], captures = [(2, 5)]\<rparr>"

theorem capture_moves_maximal_witness:
  "wf_grid (Board scenario_board)
   \<and> scenario_move \<in> set (GenerateLegalMoves scenario_board White)
   \<and> captures scenario_move \<noteq> []
   \<and> list_all (\<lambda>d. \<not> jump_ok (Board (ApplyMove scenario_board scenario_move)) White (1, 6) [] d) DIRS"
proof -
  have a: "wf_grid (Board scenario_board)" by code_simp
  have b: "scenario_move \<in> set (GenerateLegalMoves scenario_board White)" by code_simp
  have c: "captures scenario_move \<noteq> []" by code_simp
  have l: "last (sequence scenario_move) = (1, 6)" by code_simp
  from capture_moves_maximal [OF a b c] a b c show ?thesis
    by (simp add: list_all_iff l)
qed

text \<open>
  C5 as stated fails where a chain of jumps ends on the square it started from: the
  piece then stands on the start square of the move.
\<close>

definition circuit_board :: gameboard where
  "circuit_board =
     \<lparr>Board = put (put (put (put (put empty_grid (2, 3) (Some Wking)) (3, 4) (Some Bman))
                (5, 4) (Some Bman)) (5, 2) (Some Bman)) (3, 2) (Some Bman),
      PlayerToMove = White\<rparr>"

definition circuit_move :: move where
  "circuit_move = \<lparr>start = (2, 3), sequence = [(4, 5), (6, 3), (4, 1), (2, 3)],
                   captures = [(3, 4), (5, 4), (5, 2), (3, 2)]\<rparr>"

theorem ApplyMove_start_not_empty_counterexample:
  "wf_grid (Board circuit_board)
   \<and> circuit_move \<in> set (GenerateLegalMoves circuit_board White)
   \<and> cell (Board (ApplyMove circuit_board circuit_move)) (start circuit_move) = Some Wking"
  by code_simp

text \<open>
  C5, amended. For a generated move on a well-formed board, \<open>ApplyMove\<close> leaves the
  start square empty unless the move ends on it, puts the moving piece on the last
  landing square, as a king when it is a white man ending on row 0 or a black man
  ending on row 7 and unchanged otherwise, empties every captured square, and hands
  the turn to the opponent.
\<close>

theorem ApplyMove_effect:
  assumes wf: "wf_grid (Board bd)" and m: "m \<in> set (GenerateLegalMoves bd player)"
  shows "(last (sequence m) \<noteq> start m \<longrightarrow> cell (Board (ApplyMove bd m)) (start m) = None)
     \<and> (\<exists>pc. cell (Board bd) (start m) = Some pc \<and> lower pc = player
            \<and> cell (Board (ApplyMove bd m)) (last (sequence m))
                = Some (if pc = Wman \<and> fst (last (sequence m)) = 0 then Wking
                        else if pc = Bman \<and> fst (last (sequence m)) = 7 then Bking
                        else pc))
     \<and> (\<forall>c \<in> set (captures m). cell (Board (ApplyMove bd m)) c = None)
     \<and> PlayerToMove (ApplyMove bd m) = OpponentOf (PlayerToMove bd)
     \<and> PlayerToMove (ApplyMove bd m) \<noteq> PlayerToMove bd"
proof -
  let ?l = "last (sequence m)"
  note og = GenerateLegalMoves_on_grid [OF wf m]
  then have seq: "sequence m \<noteq> []" and bs: "InBounds (start m)" and bl: "InBounds ?l"
    and bc: "\<forall>c \<in> set (captures m). InBounds c" and lc: "?l \<notin> set (captures m)"
    and own: "owned_by (Board bd) player (start m)"
    by (simp_all add: on_grid_def)
  have l: "last_landing m = ?l" using seq by (simp add: last_landing_eq)
  have cells: "cell (Board (ApplyMove bd m)) sq =
          (if sq = ?l then crowned (cell (Board bd) (start m)) ?l
           else if sq \<in> set (captures m) \<or> sq = start m then None
           else cell (Board bd) sq)" if "InBounds sq" for sq
    using ApplyMove_cell [OF wf _ _ bc that, of ] bs bl lc by (simp add: l)
  from own obtain pc where pc: "cell (Board bd) (start m) = Some pc" "lower pc = player"
    by (auto simp: owned_by_def split: option.splits)
  have 1: "?l \<noteq> start m \<longrightarrow> cell (Board (ApplyMove bd m)) (start m) = None"
    using cells [OF bs] by simp
  have 2: "cell (Board (ApplyMove bd m)) ?l
             = Some (if pc = Wman \<and> fst ?l = 0 then Wking
                     else if pc = Bman \<and> fst ?l = 7 then Bking else pc)"
    using cells [OF bl] by (simp add: crowned_def pc BOARD_SIZE_def)
  have 3: "\<forall>c \<in> set (captures m). cell (Board (ApplyMove bd m)) c = None"
  proof
    fix c assume c: "c \<in> set (captures m)"
    with bc have "InBounds c" by blast
    from cells [OF this] c lc show "cell (Board (ApplyMove bd m)) c = None" by auto
  qed
  have 4: "PlayerToMove (ApplyMove bd m) = OpponentOf (PlayerToMove bd)"
    by (simp add: ApplyMove_def Let_def)
  have 5: "PlayerToMove (ApplyMove bd m) \<noteq> PlayerToMove bd"
    unfolding 4 by (simp add: OpponentOf_def)
  from 1 2 3 4 5 pc show ?thesis by blast
qed

theorem ApplyMove_effect_witness:
  "wf_grid (Board scenario_board)
   \<and> scenario_move \<in> set (GenerateLegalMoves scenario_board White)
   \<and> cell (Board (ApplyMove scenario_board scenario_move)) (3, 4) = None
   \<and> cell (Board (ApplyMove scenario_board scenario_move)) (1, 6) = Some Wman
   \<and> cell (Board (ApplyMove scenario_board scenario_move)) (2, 5) = None
   \<and> PlayerToMove (ApplyMove scenario_board scenario_move) = Black"
proof -
  have a: "wf_grid (Board scenario_board)" by code_simp
  have b: "scenario_move \<in> set (GenerateLegalMoves scenario_board White)" by code_simp
  have s: "start scenario_move = (3, 4)" "sequence scenario_move = [(1, 6)]"
    "captures scenario_move = [(2, 5)]" by (simp_all add: scenario_move_def)
  have p: "cell (Board scenario_board) (3, 4) = Some Wman" by code_simp
  have q: "PlayerToMove scenario_board = White" by (simp add: scenario_board_def)
  from ApplyMove_effect [OF a b] have
    "cell (Board (ApplyMove scenario_board scenario_move)) (3, 4) = None
     \<and> cell (Board (ApplyMove scenario_board scenario_move)) (1, 6) = Some Wman
     \<and> cell (Board (ApplyMove scenario_board scenario_move)) (2, 5) = None
     \<and> PlayerToMove (ApplyMove scenario_board scenario_move) = Black"
    by (simp add: s p q OpponentOf_def)
  with a b show ?thesis by simp
qed


section \<open>Search engine (SearchToolBox/search.py)\<close>

text \<open>
  Search values are Python floats: the evaluations and the two infinities
  \<open>float('inf')\<close> and \<open>float('-inf')\<close> returned for decided games.
\<close>

datatype score = MInf | Fin real | PInf

instantiation score :: linorder
begin

fun less_eq_score :: "score \<Rightarrow> score \<Rightarrow> bool" where
  "less_eq_score MInf _ = True"
| "less_eq_score _ PInf = True"
| "less_eq_score (Fin a) (Fin b) = (a \<le> b)"
| "less_eq_score _ _ = False"

definition less_score :: "score \<Rightarrow> score \<Rightarrow> bool" where
  "less_score x y = (x \<le> y \<and> \<not> y \<le> x)"

instance
proof
  fix x y z :: score
  show "(x < y) = (x \<le> y \<and> \<not> y \<le> x)" by (simp add: less_score_def)
  show "x \<le> x" by (cases x) simp_all
  show "x \<le> y \<Longrightarrow> y \<le> z \<Longrightarrow> x \<le> z" by (cases x; cases y; cases z) simp_all
  show "x \<le> y \<Longrightarrow> y \<le> x \<Longrightarrow> x = y" by (cases x; cases y) simp_all
  show "x \<le> y \<or> y \<le> x" by (cases x; cases y) auto
qed

end

lemma score_bounds [simp]: "MInf \<le> x" "x \<le> PInf" "\<not> PInf < x" "\<not> x < MInf"
  by (cases x; simp add: less_score_def)+

datatype error = ValueError string

text \<open>
  The fields of the engine that decide the result of a search. The analytics counters
  (\<open>NodesExpanded\<close>, \<open>NodesGenerated\<close>, \<open>AlphaBetaPrunes\<close>) and the \<open>TimeUp\<close> flag are
  written during a search and never read by it; they are left out.
  \<open>__init__\<close> stores whatever strategy name it is given: \<open>new_engine\<close> is the object
  it fills in, and no branch of it raises.
\<close>

record engine =
  Strategy :: string
  TimeLimit :: real
  MaxPly :: int
  OrderingUsed :: bool

definition new_engine :: "string \<Rightarrow> real \<Rightarrow> int \<Rightarrow> engine" where
  "new_engine strategy time_limit max_ply =
     \<lparr>Strategy = strategy, TimeLimit = time_limit, MaxPly = max_ply,
      OrderingUsed = (strategy = ''AlphaBetaOrdering'')\<rparr>"

definition SearchToolBox_init :: "string \<Rightarrow> real \<Rightarrow> int \<Rightarrow> error + engine" where
  "SearchToolBox_init strategy time_limit max_ply = Inr (new_engine strategy time_limit max_ply)"

text \<open>
  The wall clock is a parameter: \<open>clock k\<close> is what the k-th call of \<open>time.time()\<close>
  made by \<open>ChooseMove\<close> returns, the call that sets \<open>TimeStart\<close> being number 0. The
  search functions carry the number of calls made so far and return it with their
  result; \<open>None\<close> is the time-up answer.
\<close>

type_synonym clock = "nat \<Rightarrow> real"

definition TimeRemaining :: "engine \<Rightarrow> clock \<Rightarrow> real \<Rightarrow> nat \<Rightarrow> bool" where
  "TimeRemaining e clock time_start k = (clock k - time_start < TimeLimit e)"

function MinValue :: "engine \<Rightarrow> clock \<Rightarrow> real \<Rightarrow> side \<Rightarrow> gameboard \<Rightarrow> int \<Rightarrow> nat \<Rightarrow> score option \<times> nat"
  and MinValue_loop :: "engine \<Rightarrow> clock \<Rightarrow> real \<Rightarrow> side \<Rightarrow> gameboard \<Rightarrow> int \<Rightarrow> move list \<Rightarrow> score
                        \<Rightarrow> nat \<Rightarrow> score option \<times> nat"
  and MaxValue :: "engine \<Rightarrow> clock \<Rightarrow> real \<Rightarrow> side \<Rightarrow> gameboard \<Rightarrow> int \<Rightarrow> nat \<Rightarrow> score option \<times> nat"
  and MaxValue_loop :: "engine \<Rightarrow> clock \<Rightarrow> real \<Rightarrow> side \<Rightarrow> gameboard \<Rightarrow> int \<Rightarrow> move list \<Rightarrow> score
                        \<Rightarrow> nat \<Rightarrow> score option \<times> nat" where
  "MinValue e clock ts root_player board depth k =
     (if \<not> TimeRemaining e clock ts k then (None, Suc k)
      else case GoalTest board of
             Some winner \<Rightarrow> (Some (if winner = root_player then PInf else MInf), Suc k)
           | None \<Rightarrow>
               if depth \<ge> MaxPly e then (Some (Fin (EvaluateFor board root_player)), Suc k)
               else MinValue_loop e clock ts root_player board depth
                      (GenerateLegalMoves board (PlayerToMove board)) PInf (Suc k))"
| "MinValue_loop e clock ts root_player board depth [] v k = (Some v, k)"
| "MinValue_loop e clock ts root_player board depth (mv # mvs) v k =
     (case MaxValue e clock ts root_player (ApplyMove board mv) (depth + 1) k of
        (None, k') \<Rightarrow> (None, k')
      | (Some val, k') \<Rightarrow> MinValue_loop e clock ts root_player board depth mvs (min v val) k')"
| "MaxValue e clock ts root_player board depth k =
     (if \<not> TimeRemaining e clock ts k then (None, Suc k)
      else case GoalTest board of
             Some winner \<Rightarrow> (Some (if winner = root_player then PInf else MInf), Suc k)
           | None \<Rightarrow>
               if depth \<ge> MaxPly e then (Some (Fin (EvaluateFor board root_player)), Suc k)
               else MaxValue_loop e clock ts root_player board depth
                      (GenerateLegalMoves board (PlayerToMove board)) MInf (Suc k))"
| "MaxValue_loop e clock ts root_player board depth [] v k = (Some v, k)"
| "MaxValue_loop e clock ts root_player board depth (mv # mvs) v k =
     (case MinValue e clock ts root_player (ApplyMove board mv) (depth + 1) k of
        (None, k') \<Rightarrow> (None, k')
      | (Some val, k') \<Rightarrow> MaxValue_loop e clock ts root_player board depth mvs (max v val) k')"
  by pat_completeness auto
termination
  by (relation "measures
    [\<lambda>x. case x of
        Inl (Inl (e, clock, ts, rp, board, depth, k)) \<Rightarrow> 2 * nat (MaxPly e - depth)
      | Inl (Inr (e, clock, ts, rp, board, depth, mvs, v, k)) \<Rightarrow> 2 * nat (MaxPly e - depth - 1) + 1
      | Inr (Inl (e, clock, ts, rp, board, depth, k)) \<Rightarrow> 2 * nat (MaxPly e - depth)
      | Inr (Inr (e, clock, ts, rp, board, depth, mvs, v, k)) \<Rightarrow> 2 * nat (MaxPly e - depth - 1) + 1,
     \<lambda>x. case x of
        Inl (Inl _) \<Rightarrow> 0
      | Inl (Inr (e, clock, ts, rp, board, depth, mvs, v, k)) \<Rightarrow> length mvs
      | Inr (Inl _) \<Rightarrow> 0
      | Inr (Inr (e, clock, ts, rp, board, depth, mvs, v, k)) \<Rightarrow> length mvs]")
    (simp_all add: diff_diff_eq)


text \<open>
  The optional reordering of the children: \<open>scored.sort(key=lambda x: x[0])\<close> at a
  minimizing node and the same with \<open>reverse=True\<close> at a maximizing node and at the
  root. Python's sort is stable in both directions.
\<close>

definition order_ascending :: "side \<Rightarrow> gameboard \<Rightarrow> move list \<Rightarrow> move list" where
  "order_ascending root_player board moves =
     sort_key (\<lambda>mv. EvaluateFor (ApplyMove board mv) root_player) moves"

definition order_descending :: "side \<Rightarrow> gameboard \<Rightarrow> move list \<Rightarrow> move list" where
  "order_descending root_player board moves =
     sort_key (\<lambda>mv. - EvaluateFor (ApplyMove board mv) root_player) moves"

function AlphaBetaMax :: "engine \<Rightarrow> clock \<Rightarrow> real \<Rightarrow> side \<Rightarrow> bool \<Rightarrow> gameboard \<Rightarrow> int \<Rightarrow> score \<Rightarrow> score
                          \<Rightarrow> nat \<Rightarrow> score option \<times> nat"
  and AlphaBetaMax_loop :: "engine \<Rightarrow> clock \<Rightarrow> real \<Rightarrow> side \<Rightarrow> bool \<Rightarrow> gameboard \<Rightarrow> int \<Rightarrow> move list
                          \<Rightarrow> score \<Rightarrow> score \<Rightarrow> score \<Rightarrow> nat \<Rightarrow> score option \<times> nat"
  and AlphaBetaMin :: "engine \<Rightarrow> clock \<Rightarrow> real \<Rightarrow> side \<Rightarrow> bool \<Rightarrow> gameboard \<Rightarrow> int \<Rightarrow> score \<Rightarrow> score
                          \<Rightarrow> nat \<Rightarrow> score option \<times> nat"
  and AlphaBetaMin_loop :: "engine \<Rightarrow> clock \<Rightarrow> real \<Rightarrow> side \<Rightarrow> bool \<Rightarrow> gameboard \<Rightarrow> int \<Rightarrow> move list
                          \<Rightarrow> score \<Rightarrow> score \<Rightarrow> score \<Rightarrow> nat \<Rightarrow> score option \<times> nat" where
  "AlphaBetaMax e clock ts root_player use_ordering board depth alpha beta k =
     (if \<not> TimeRemaining e clock ts k then (None, Suc k)
      else case GoalTest board of
             Some winner \<Rightarrow> (Some (if winner = root_player then PInf else MInf), Suc k)
           | None \<Rightarrow>
               if depth \<ge> MaxPly e then (Some (Fin (EvaluateFor board root_player)), Suc k)
               else AlphaBetaMax_loop e clock ts root_player use_ordering board depth
                      (if use_ordering
                       then order_descending root_player board
                              (GenerateLegalMoves board (PlayerToMove board))
                       else GenerateLegalMoves board (PlayerToMove board))
                      MInf alpha beta (Suc k))"
| "AlphaBetaMax_loop e clock ts root_player use_ordering board depth [] v alpha beta k = (Some v, k)"
| "AlphaBetaMax_loop e clock ts root_player use_ordering board depth (mv # mvs) v alpha beta k =
     (case AlphaBetaMin e clock ts root_player use_ordering (ApplyMove board mv) (depth + 1)
             alpha beta k of
        (None, k') \<Rightarrow> (None, k')
      | (Some val, k') \<Rightarrow>
          if max v val \<ge> beta then (Some (max v val), k')
          else AlphaBetaMax_loop e clock ts root_player use_ordering board depth mvs
                 (max v val) (max alpha (max v val)) beta k')"
| "AlphaBetaMin e clock ts root_player use_ordering board depth alpha beta k =
     (if \<not> TimeRemaining e clock ts k then (None, Suc k)
      else case GoalTest board of
             Some winner \<Rightarrow> (Some (if winner = root_player then PInf else MInf), Suc k)
           | None \<Rightarrow>
               if depth \<ge> MaxPly e then (Some (Fin (EvaluateFor board root_player)), Suc k)
               else AlphaBetaMin_loop e clock ts root_player use_ordering board depth
                      (if use_ordering
                       then order_ascending root_player board
                              (GenerateLegalMoves board (PlayerToMove board))
                       else GenerateLegalMoves board (PlayerToMove board))
                      PInf alpha beta (Suc k))"
| "AlphaBetaMin_loop e clock ts root_player use_ordering board depth [] v alpha beta k = (Some v, k)"
| "AlphaBetaMin_loop e clock ts root_player use_ordering board depth (mv # mvs) v alpha beta k =
     (case AlphaBetaMax e clock ts root_player use_ordering (ApplyMove board mv) (depth + 1)
             alpha beta k of
        (None, k') \<Rightarrow> (None, k')
      | (Some val, k') \<Rightarrow>
          if min v val \<le> alpha then (Some (min v val), k')
          else AlphaBetaMin_loop e clock ts root_player use_ordering board depth mvs
                 (min v val) alpha (min beta (min v val)) k')"
  by pat_completeness auto
termination
  by (relation "measures
    [\<lambda>x. case x of
        Inl (Inl (e, clock, ts, rp, uo, board, depth, al, be, k)) \<Rightarrow> 2 * nat (MaxPly e - depth)
      | Inl (Inr (e, clock, ts, rp, uo, board, depth, mvs, v, al, be, k)) \<Rightarrow>
          2 * nat (MaxPly e - depth - 1) + 1
      | Inr (Inl (e, clock, ts, rp, uo, board, depth, al, be, k)) \<Rightarrow> 2 * nat (MaxPly e - depth)
      | Inr (Inr (e, clock, ts, rp, uo, board, depth, mvs, v, al, be, k)) \<Rightarrow>
          2 * nat (MaxPly e - depth - 1) + 1,
     \<lambda>x. case x of
        Inl (Inl _) \<Rightarrow> 0
      | Inl (Inr (e, clock, ts, rp, uo, board, depth, mvs, v, al, be, k)) \<Rightarrow> length mvs
      | Inr (Inl _) \<Rightarrow> 0
      | Inr (Inr (e, clock, ts, rp, uo, board, depth, mvs, v, al, be, k)) \<Rightarrow> length mvs]")
    (simp_all add: diff_diff_eq)

declare MinValue.simps [simp del] MaxValue.simps [simp del]
  AlphaBetaMax.simps [simp del] AlphaBetaMin.simps [simp del]

text \<open>
  The three loops over the root moves in \<open>ChooseMove\<close>, carrying \<open>bestMove\<close> and
  \<open>bestVal\<close> (and \<open>alpha\<close>; \<open>beta\<close> stays \<open>math.inf\<close>). A time-up answer breaks the
  loop. The two alpha-beta loops differ only in the \<open>use_ordering\<close> flag they pass.
\<close>

fun root_minimax :: "engine \<Rightarrow> clock \<Rightarrow> real \<Rightarrow> side \<Rightarrow> gameboard \<Rightarrow> move list
                     \<Rightarrow> move option \<Rightarrow> score \<Rightarrow> nat \<Rightarrow> move option \<times> score" where
  "root_minimax e clock ts player board [] bestMove bestVal k = (bestMove, bestVal)"
| "root_minimax e clock ts player board (mv # mvs) bestMove bestVal k =
     (case MinValue e clock ts player (ApplyMove board mv) 1 k of
        (None, k') \<Rightarrow> (bestMove, bestVal)
      | (Some val, k') \<Rightarrow>
          if val > bestVal then root_minimax e clock ts player board mvs (Some mv) val k'
          else root_minimax e clock ts player board mvs bestMove bestVal k')"

fun root_alphabeta :: "engine \<Rightarrow> clock \<Rightarrow> real \<Rightarrow> side \<Rightarrow> bool \<Rightarrow> gameboard \<Rightarrow> move list
                     \<Rightarrow> move option \<Rightarrow> score \<Rightarrow> score \<Rightarrow> nat \<Rightarrow> move option \<times> score" where
  "root_alphabeta e clock ts player use_ordering board [] bestMove bestVal alpha k =
     (bestMove, bestVal)"
| "root_alphabeta e clock ts player use_ordering board (mv # mvs) bestMove bestVal alpha k =
     (case AlphaBetaMin e clock ts player use_ordering (ApplyMove board mv) 1 alpha PInf k of
        (None, k') \<Rightarrow> (bestMove, bestVal)
      | (Some val, k') \<Rightarrow>
          if val > bestVal
          then root_alphabeta e clock ts player use_ordering board mvs (Some mv) val
                 (max alpha val) k'
          else root_alphabeta e clock ts player use_ordering board mvs bestMove bestVal
                 (max alpha bestVal) k')"

text \<open>
  \<open>ChooseMove\<close> from the reading of \<open>TimeStart\<close> to the end of the strategy dispatch:
  \<open>ChooseMove_search\<close> returns the locals \<open>bestMove\<close> and \<open>bestVal\<close> as they stand when
  the loop of the selected strategy ends, or the \<open>ValueError\<close> of the last branch.
  \<open>ChooseMove\<close> returns \<open>bestMove\<close>, and \<open>None\<close> at once when the root has no legal
  move. The analytics dictionary is left out, and with it \<open>_EstimateOrderingGain\<close>,
  which runs after \<open>bestMove\<close> is fixed, restores the settings it changes and only
  fills an analytics entry.
\<close>

definition ChooseMove_search :: "engine \<Rightarrow> clock \<Rightarrow> gameboard \<Rightarrow> error + move option \<times> score" where
  "ChooseMove_search e clock board =
     (let ts = clock 0;
          player = PlayerToMove board;
          legal = GenerateLegalMoves board player;
          bestVal = (if player = Black then MInf else PInf);
          child_list = (if OrderingUsed e then order_descending player board legal else legal)
      in if Strategy e = ''Minimax''
         then Inr (root_minimax e clock ts player board child_list None bestVal 1)
         else if Strategy e = ''AlphaBeta''
         then Inr (root_alphabeta e clock ts player False board child_list None bestVal MInf 1)
         else if Strategy e = ''AlphaBetaOrdering''
         then Inr (root_alphabeta e clock ts player True board child_list None bestVal MInf 1)
         else Inl (ValueError (''Unknown strategy: '' @ Strategy e)))"

definition ChooseMove :: "engine \<Rightarrow> clock \<Rightarrow> gameboard \<Rightarrow> error + move option" where
  "ChooseMove e clock board =
     (if GenerateLegalMoves board (PlayerToMove board) = [] then Inr None
      else case ChooseMove_search e clock board of
             Inl err \<Rightarrow> Inl err
           | Inr (bestMove, bestVal) \<Rightarrow> Inr bestMove)"

section \<open>The three strategies compute the same value\<close>

text \<open>
  The reference is the depth-limited minimax value as the specification describes it:
  a decided position is worth plus or minus infinity for the root player, a position
  at the ply limit is worth its static evaluation, and any other position combines the
  values of its children by minimum at a minimizing node and by maximum at a
  maximizing node. It involves neither clock nor bounds.
\<close>

function minimax_min :: "int \<Rightarrow> side \<Rightarrow> gameboard \<Rightarrow> int \<Rightarrow> score"
  and minimax_max :: "int \<Rightarrow> side \<Rightarrow> gameboard \<Rightarrow> int \<Rightarrow> score" where
  "minimax_min max_ply root_player board depth =
     (case GoalTest board of
        Some winner \<Rightarrow> (if winner = root_player then PInf else MInf)
      | None \<Rightarrow>
          if depth \<ge> max_ply then Fin (EvaluateFor board root_player)
          else fold (\<lambda>mv v. min v (minimax_max max_ply root_player (ApplyMove board mv) (depth + 1)))
                 (GenerateLegalMoves board (PlayerToMove board)) PInf)"
| "minimax_max max_ply root_player board depth =
     (case GoalTest board of
        Some winner \<Rightarrow> (if winner = root_player then PInf else MInf)
      | None \<Rightarrow>
          if depth \<ge> max_ply then Fin (EvaluateFor board root_player)
          else fold (\<lambda>mv v. max v (minimax_min max_ply root_player (ApplyMove board mv) (depth + 1)))
                 (GenerateLegalMoves board (PlayerToMove board)) MInf)"
  by pat_completeness auto
termination
  by (relation "measure (\<lambda>x. case x of Inl (m, rp, b, d) \<Rightarrow> nat (m - d)
                                        | Inr (m, rp, b, d) \<Rightarrow> nat (m - d))") simp_all

declare minimax_min.simps [simp del] minimax_max.simps [simp del]

subsection \<open>Windows\<close>

definition clamp :: "score \<Rightarrow> score \<Rightarrow> score \<Rightarrow> score" where
  "clamp a b x = max a (min x b)"

lemma clamp_max: "clamp a b (max x y) = max (clamp a b x) (clamp a b y)"
  by (auto simp: clamp_def max_def min_def)

lemma clamp_min: "clamp a b (min x y) = min (clamp a b x) (clamp a b y)"
  by (auto simp: clamp_def max_def min_def)

lemma clamp_upper: "clamp a b x \<le> max a b"
  by (auto simp: clamp_def max_def min_def)

lemma clamp_lower: "a \<le> clamp a b x"
  by (simp add: clamp_def)

lemma clamp_above: "b \<le> x \<Longrightarrow> clamp a b x = max a b"
  by (auto simp: clamp_def max_def min_def)

lemma clamp_below: "x \<le> a \<Longrightarrow> clamp a b x = a"
  by (auto simp: clamp_def max_def min_def)

lemma clamp_raise: "w \<le> x \<Longrightarrow> w < b \<Longrightarrow> clamp (max a w) b x = clamp a b x"
  by (auto simp: clamp_def max_def min_def)

lemma clamp_lower_beta: "x \<le> w \<Longrightarrow> clamp a (min b w) x = clamp a b x"
  by (auto simp: clamp_def max_def min_def)

lemma max_cutoff:
  assumes "clamp a b val = clamp a b tv" and "b \<le> max v val"
  shows "clamp a b (max v val) = clamp a b (max (max v tv) rest)"
proof -
  have "clamp a b (max (max v tv) rest) = max (clamp a b (max v val)) (clamp a b rest)"
    by (simp add: clamp_max assms(1))
  also have "\<dots> = clamp a b (max v val)"
    using clamp_upper [of a b rest] by (simp add: clamp_above [OF assms(2)] max_absorb1)
  finally show ?thesis by simp
qed

lemma max_continue:
  assumes "clamp a b val = clamp a b tv" and "max v val < b" and "max v val \<le> r"
    and "clamp (max a (max v val)) b r = clamp (max a (max v val)) b (max (max v val) rest)"
  shows "clamp a b r = clamp a b (max (max v tv) rest)"
proof -
  have "max v val \<le> max (max v val) rest" by (rule max.cobounded1)
  then have "clamp (max a (max v val)) b (max (max v val) rest) = clamp a b (max (max v val) rest)"
    using assms(2) by (rule clamp_raise)
  moreover have "clamp (max a (max v val)) b r = clamp a b r"
    using assms(3,2) by (rule clamp_raise)
  ultimately have "clamp a b r = clamp a b (max (max v val) rest)"
    using assms(4) by simp
  also have "\<dots> = clamp a b (max (max v tv) rest)"
    by (simp add: clamp_max assms(1))
  finally show ?thesis .
qed

lemma min_cutoff:
  assumes "clamp a b val = clamp a b tv" and "min v val \<le> a"
  shows "clamp a b (min v val) = clamp a b (min (min v tv) rest)"
proof -
  have "clamp a b (min (min v tv) rest) = min (clamp a b (min v val)) (clamp a b rest)"
    by (simp add: clamp_min assms(1))
  also have "\<dots> = clamp a b (min v val)"
    using clamp_lower [of a b rest] by (simp add: clamp_below [OF assms(2)] min_absorb1)
  finally show ?thesis by simp
qed

lemma min_continue:
  assumes "clamp a b val = clamp a b tv" and "r \<le> min v val"
    and "clamp a (min b (min v val)) r = clamp a (min b (min v val)) (min (min v val) rest)"
  shows "clamp a b r = clamp a b (min (min v tv) rest)"
proof -
  have "min (min v val) rest \<le> min v val" by (rule min.cobounded1)
  then have "clamp a (min b (min v val)) (min (min v val) rest) = clamp a b (min (min v val) rest)"
    by (rule clamp_lower_beta)
  moreover have "clamp a (min b (min v val)) r = clamp a b r"
    using assms(2) by (rule clamp_lower_beta)
  ultimately have "clamp a b r = clamp a b (min (min v val) rest)"
    using assms(3) by simp
  also have "\<dots> = clamp a b (min (min v tv) rest)"
    by (simp add: clamp_min assms(1))
  finally show ?thesis .
qed

lemma fold_max_init:
  "fold (\<lambda>x v. max v (f x)) xs (v :: score) = max v (fold (\<lambda>x v. max v (f x)) xs MInf)"
proof (induction xs arbitrary: v)
  case Nil
  show ?case by (simp add: max_absorb1)
next
  case (Cons x xs)
  show ?case
    by (simp add: Cons.IH [of "max v (f x)"] Cons.IH [of "f x"] max.assoc max_absorb2)
qed

lemma fold_min_init:
  "fold (\<lambda>x v. min v (f x)) xs (v :: score) = min v (fold (\<lambda>x v. min v (f x)) xs PInf)"
proof (induction xs arbitrary: v)
  case Nil
  show ?case by (simp add: min_absorb1)
next
  case (Cons x xs)
  show ?case
    by (simp add: Cons.IH [of "min v (f x)"] Cons.IH [of "f x"] min.assoc min_absorb2)
qed

lemma fold_max_perm:
  assumes "mset xs = mset ys"
  shows "fold (\<lambda>x v. max v (f x)) xs (v :: score) = fold (\<lambda>x v. max v (f x)) ys v"
proof -
  have "fold (\<lambda>x v. max v (f x)) xs = fold (\<lambda>x v. max v (f x)) ys"
    by (rule fold_multiset_equiv [OF _ assms]) (auto simp: fun_eq_iff max_def)
  then show ?thesis by simp
qed

lemma fold_min_perm:
  assumes "mset xs = mset ys"
  shows "fold (\<lambda>x v. min v (f x)) xs (v :: score) = fold (\<lambda>x v. min v (f x)) ys v"
proof -
  have "fold (\<lambda>x v. min v (f x)) xs = fold (\<lambda>x v. min v (f x)) ys"
    by (rule fold_multiset_equiv [OF _ assms]) (auto simp: fun_eq_iff min_def)
  then show ?thesis by simp
qed

subsection \<open>Minimax against the reference, with time to spare\<close>

definition unlimited :: "engine \<Rightarrow> clock \<Rightarrow> real \<Rightarrow> bool" where
  "unlimited e clock ts \<longleftrightarrow> (\<forall>k. TimeRemaining e clock ts k)"

lemma minimax_refines:
  "unlimited e clock ts \<Longrightarrow>
     fst (MinValue e clock ts rp b d k) = Some (minimax_min (MaxPly e) rp b d)"
  "unlimited e clock ts \<Longrightarrow>
     fst (MinValue_loop e clock ts rp b d mvs v k)
       = Some (fold (\<lambda>mv v. min v (minimax_max (MaxPly e) rp (ApplyMove b mv) (d + 1))) mvs v)"
  "unlimited e clock ts \<Longrightarrow>
     fst (MaxValue e clock ts rp b d k) = Some (minimax_max (MaxPly e) rp b d)"
  "unlimited e clock ts \<Longrightarrow>
     fst (MaxValue_loop e clock ts rp b d mvs v k)
       = Some (fold (\<lambda>mv v. max v (minimax_min (MaxPly e) rp (ApplyMove b mv) (d + 1))) mvs v)"
proof (induction e clock ts rp b d k and e clock ts rp b d mvs v k
         and e clock ts rp b d k and e clock ts rp b d mvs v k
       rule: MinValue_MinValue_loop_MaxValue_MaxValue_loop.induct)
  case (1 e clock ts rp b d k)
  from "1.prems" have tr: "TimeRemaining e clock ts k" by (simp add: unlimited_def)
  show ?case
  proof (cases "GoalTest b")
    case (Some w)
    with tr show ?thesis
      by (simp add: MinValue.simps [of e clock ts rp b d k] minimax_min.simps [of "MaxPly e" rp b d])
  next
    case None
    show ?thesis
    proof (cases "MaxPly e \<le> d")
      case True
      with tr None show ?thesis
        by (simp add: MinValue.simps [of e clock ts rp b d k] minimax_min.simps [of "MaxPly e" rp b d])
    next
      case False
      with tr None "1.IH" "1.prems" show ?thesis
        by (simp add: MinValue.simps [of e clock ts rp b d k] minimax_min.simps [of "MaxPly e" rp b d])
    qed
  qed
next
  case (2 e clock ts rp b d v k)
  show ?case by simp
next
  case (3 e clock ts rp b d mv mvs v k)
  obtain x y where r: "MaxValue e clock ts rp (ApplyMove b mv) (d + 1) k = (x, y)"
    by (cases "MaxValue e clock ts rp (ApplyMove b mv) (d + 1) k")
  with "3.IH"(1) [OF "3.prems"]
  have x: "x = Some (minimax_max (MaxPly e) rp (ApplyMove b mv) (d + 1))" by simp
  from "3.IH"(2) [OF r [symmetric] x "3.prems"] show ?case
    by (simp add: r x)
next
  case (4 e clock ts rp b d k)
  from "4.prems" have tr: "TimeRemaining e clock ts k" by (simp add: unlimited_def)
  show ?case
  proof (cases "GoalTest b")
    case (Some w)
    with tr show ?thesis
      by (simp add: MaxValue.simps [of e clock ts rp b d k] minimax_max.simps [of "MaxPly e" rp b d])
  next
    case None
    show ?thesis
    proof (cases "MaxPly e \<le> d")
      case True
      with tr None show ?thesis
        by (simp add: MaxValue.simps [of e clock ts rp b d k] minimax_max.simps [of "MaxPly e" rp b d])
    next
      case False
      with tr None "4.IH" "4.prems" show ?thesis
        by (simp add: MaxValue.simps [of e clock ts rp b d k] minimax_max.simps [of "MaxPly e" rp b d])
    qed
  qed
next
  case (5 e clock ts rp b d v k)
  show ?case by simp
next
  case (6 e clock ts rp b d mv mvs v k)
  obtain x y where r: "MinValue e clock ts rp (ApplyMove b mv) (d + 1) k = (x, y)"
    by (cases "MinValue e clock ts rp (ApplyMove b mv) (d + 1) k")
  with "6.IH"(1) [OF "6.prems"]
  have x: "x = Some (minimax_min (MaxPly e) rp (ApplyMove b mv) (d + 1))" by simp
  from "6.IH"(2) [OF r [symmetric] x "6.prems"] show ?case
    by (simp add: r x)
qed

subsection \<open>Alpha-beta against the reference, with time to spare\<close>

lemma fold_max_descending:
  "fold (\<lambda>mv v. max v (f mv)) (order_descending rp b mvs) (v :: score) = fold (\<lambda>mv v. max v (f mv)) mvs v"
  by (rule fold_max_perm) (simp add: order_descending_def)

lemma fold_min_ascending:
  "fold (\<lambda>mv v. min v (f mv)) (order_ascending rp b mvs) (v :: score) = fold (\<lambda>mv v. min v (f mv)) mvs v"
  by (rule fold_min_perm) (simp add: order_ascending_def)

lemma alphabeta_refines:
  "unlimited e clock ts \<Longrightarrow>
     \<exists>r. fst (AlphaBetaMax e clock ts rp uo b d al be k) = Some r
        \<and> clamp al be r = clamp al be (minimax_max (MaxPly e) rp b d)"
  "unlimited e clock ts \<Longrightarrow>
     \<exists>r. fst (AlphaBetaMax_loop e clock ts rp uo b d mvs v al be k) = Some r \<and> v \<le> r
        \<and> clamp al be r = clamp al be
             (fold (\<lambda>mv v. max v (minimax_min (MaxPly e) rp (ApplyMove b mv) (d + 1))) mvs v)"
  "unlimited e clock ts \<Longrightarrow>
     \<exists>r. fst (AlphaBetaMin e clock ts rp uo b d al be k) = Some r
        \<and> clamp al be r = clamp al be (minimax_min (MaxPly e) rp b d)"
  "unlimited e clock ts \<Longrightarrow>
     \<exists>r. fst (AlphaBetaMin_loop e clock ts rp uo b d mvs v al be k) = Some r \<and> r \<le> v
        \<and> clamp al be r = clamp al be
             (fold (\<lambda>mv v. min v (minimax_max (MaxPly e) rp (ApplyMove b mv) (d + 1))) mvs v)"
proof (induction e clock ts rp uo b d al be k and e clock ts rp uo b d mvs v al be k
         and e clock ts rp uo b d al be k and e clock ts rp uo b d mvs v al be k
       rule: AlphaBetaMax_AlphaBetaMax_loop_AlphaBetaMin_AlphaBetaMin_loop.induct)
  case (1 e clock ts rp uo b d al be k)
  from "1.prems" have tr: "TimeRemaining e clock ts k" by (simp add: unlimited_def)
  note defs = AlphaBetaMax.simps [of e clock ts rp uo b d al be k] minimax_max.simps [of "MaxPly e" rp b d]
  show ?case
  proof (cases "GoalTest b")
    case (Some w)
    with tr show ?thesis by (simp add: defs)
  next
    case None
    show ?thesis
    proof (cases "MaxPly e \<le> d")
      case True
      with tr None show ?thesis by (simp add: defs)
    next
      case False
      let ?mvs = "if uo then order_descending rp b (GenerateLegalMoves b (PlayerToMove b))
                  else GenerateLegalMoves b (PlayerToMove b)"
      let ?F = "\<lambda>mv v. max v (minimax_min (MaxPly e) rp (ApplyMove b mv) (d + 1))"
      have eq: "AlphaBetaMax e clock ts rp uo b d al be k
                = AlphaBetaMax_loop e clock ts rp uo b d ?mvs MInf al be (Suc k)"
        using tr None False by (simp add: defs(1))
      have mm: "minimax_max (MaxPly e) rp b d = fold ?F ?mvs MInf"
        using None False by (simp add: defs(2) fold_max_descending)
      from "1.IH" [OF _ None False "1.prems"] tr
      have "\<exists>r. fst (AlphaBetaMax_loop e clock ts rp uo b d ?mvs MInf al be (Suc k)) = Some r
              \<and> MInf \<le> r \<and> clamp al be r = clamp al be (fold ?F ?mvs MInf)"
        by simp
      then show ?thesis unfolding eq mm by blast
    qed
  qed
next
  case (2 e clock ts rp uo b d v al be k)
  show ?case by simp
next
  case (3 e clock ts rp uo b d mv mvs v al be k)
  let ?F = "\<lambda>mv v. max v (minimax_min (MaxPly e) rp (ApplyMove b mv) (d + 1))"
  let ?tv = "minimax_min (MaxPly e) rp (ApplyMove b mv) (d + 1)"
  obtain x y where r: "AlphaBetaMin e clock ts rp uo (ApplyMove b mv) (d + 1) al be k = (x, y)"
    by (cases "AlphaBetaMin e clock ts rp uo (ApplyMove b mv) (d + 1) al be k")
  with "3.IH"(1) [OF "3.prems"] obtain val where x: "x = Some val"
    and cv: "clamp al be val = clamp al be ?tv" by auto
  have fold_eq: "fold ?F (mv # mvs) v = max (max v ?tv) (fold ?F mvs MInf)"
    using fold_max_init [of _ mvs "max v ?tv"] by simp
  show ?case
  proof (cases "be \<le> max v val")
    case True
    have "clamp al be (max v val) = clamp al be (fold ?F (mv # mvs) v)"
      unfolding fold_eq by (rule max_cutoff [OF cv True])
    with True show ?thesis by (simp add: r x)
  next
    case False
    from "3.IH"(2) [OF r [symmetric] x False "3.prems"]
    obtain res where res: "fst (AlphaBetaMax_loop e clock ts rp uo b d mvs (max v val)
                                 (max al (max v val)) be y) = Some res"
      and le: "max v val \<le> res"
      and cr: "clamp (max al (max v val)) be res
               = clamp (max al (max v val)) be (fold ?F mvs (max v val))"
      by auto
    have cr': "clamp (max al (max v val)) be res
               = clamp (max al (max v val)) be (max (max v val) (fold ?F mvs MInf))"
      using cr fold_max_init [of _ mvs "max v val"] by simp
    from False have lt: "max v val < be" unfolding not_le .
    have "clamp al be res = clamp al be (fold ?F (mv # mvs) v)"
      unfolding fold_eq by (rule max_continue [OF cv lt le cr'])
    moreover have "v \<le> res" using le by simp
    ultimately show ?thesis using False res by (simp add: r x)
  qed
next
  case (4 e clock ts rp uo b d al be k)
  from "4.prems" have tr: "TimeRemaining e clock ts k" by (simp add: unlimited_def)
  note defs = AlphaBetaMin.simps [of e clock ts rp uo b d al be k] minimax_min.simps [of "MaxPly e" rp b d]
  show ?case
  proof (cases "GoalTest b")
    case (Some w)
    with tr show ?thesis by (simp add: defs)
  next
    case None
    show ?thesis
    proof (cases "MaxPly e \<le> d")
      case True
      with tr None show ?thesis by (simp add: defs)
    next
      case False
      let ?mvs = "if uo then order_ascending rp b (GenerateLegalMoves b (PlayerToMove b))
                  else GenerateLegalMoves b (PlayerToMove b)"
      let ?F = "\<lambda>mv v. min v (minimax_max (MaxPly e) rp (ApplyMove b mv) (d + 1))"
      have eq: "AlphaBetaMin e clock ts rp uo b d al be k
                = AlphaBetaMin_loop e clock ts rp uo b d ?mvs PInf al be (Suc k)"
        using tr None False by (simp add: defs(1))
      have mm: "minimax_min (MaxPly e) rp b d = fold ?F ?mvs PInf"
        using None False by (simp add: defs(2) fold_min_ascending)
      from "4.IH" [OF _ None False "4.prems"] tr
      have "\<exists>r. fst (AlphaBetaMin_loop e clock ts rp uo b d ?mvs PInf al be (Suc k)) = Some r
              \<and> r \<le> PInf \<and> clamp al be r = clamp al be (fold ?F ?mvs PInf)"
        by simp
      then show ?thesis unfolding eq mm by blast
    qed
  qed
next
  case (5 e clock ts rp uo b d v al be k)
  show ?case by simp
next
  case (6 e clock ts rp uo b d mv mvs v al be k)
  let ?F = "\<lambda>mv v. min v (minimax_max (MaxPly e) rp (ApplyMove b mv) (d + 1))"
  let ?tv = "minimax_max (MaxPly e) rp (ApplyMove b mv) (d + 1)"
  obtain x y where r: "AlphaBetaMax e clock ts rp uo (ApplyMove b mv) (d + 1) al be k = (x, y)"
    by (cases "AlphaBetaMax e clock ts rp uo (ApplyMove b mv) (d + 1) al be k")
  with "6.IH"(1) [OF "6.prems"] obtain val where x: "x = Some val"
    and cv: "clamp al be val = clamp al be ?tv" by auto
  have fold_eq: "fold ?F (mv # mvs) v = min (min v ?tv) (fold ?F mvs PInf)"
    using fold_min_init [of _ mvs "min v ?tv"] by simp
  show ?case
  proof (cases "min v val \<le> al")
    case True
    have "clamp al be (min v val) = clamp al be (fold ?F (mv # mvs) v)"
      unfolding fold_eq by (rule min_cutoff [OF cv True])
    with True show ?thesis by (simp add: r x)
  next
    case False
    from "6.IH"(2) [OF r [symmetric] x False "6.prems"]
    obtain res where res: "fst (AlphaBetaMin_loop e clock ts rp uo b d mvs (min v val)
                                 al (min be (min v val)) y) = Some res"
      and le: "res \<le> min v val"
      and cr: "clamp al (min be (min v val)) res
               = clamp al (min be (min v val)) (fold ?F mvs (min v val))"
      by auto
    have cr': "clamp al (min be (min v val)) res
               = clamp al (min be (min v val)) (min (min v val) (fold ?F mvs PInf))"
      using cr fold_min_init [of _ mvs "min v val"] by simp
    have "clamp al be res = clamp al be (fold ?F (mv # mvs) v)"
      unfolding fold_eq by (rule min_continue [OF cv le cr'])
    moreover have "res \<le> v" using le by simp
    ultimately show ?thesis using False res by (simp add: r x)
  qed
qed

subsection \<open>The root loops\<close>

lemma clamp_PInf: "clamp a PInf x = max a x"
  by (simp add: clamp_def min_absorb1)

lemma root_minimax_value:
  "unlimited e clock ts \<Longrightarrow>
   snd (root_minimax e clock ts p b mvs bm bv k)
     = fold (\<lambda>mv v. max v (minimax_min (MaxPly e) p (ApplyMove b mv) 1)) mvs bv"
proof (induction mvs arbitrary: bm bv k)
  case Nil
  show ?case by simp
next
  case (Cons mv mvs)
  let ?tv = "minimax_min (MaxPly e) p (ApplyMove b mv) 1"
  obtain x y where r: "MinValue e clock ts p (ApplyMove b mv) 1 k = (x, y)"
    by (cases "MinValue e clock ts p (ApplyMove b mv) 1 k")
  with minimax_refines(1) [OF Cons.prems, of p "ApplyMove b mv" 1 k]
  have x: "x = Some ?tv" by simp
  show ?case
  proof (cases "?tv > bv")
    case True
    then have "max bv ?tv = ?tv" by (simp add: max_absorb2)
    with True Cons.IH [OF Cons.prems, of "Some mv" ?tv y] show ?thesis
      by (simp add: r x)
  next
    case False
    then have "max bv ?tv = bv" by (simp add: max_absorb1)
    with False Cons.IH [OF Cons.prems, of bm bv y] show ?thesis
      by (simp add: r x)
  qed
qed

lemma root_alphabeta_value:
  "unlimited e clock ts \<Longrightarrow> al \<le> bv \<Longrightarrow>
   snd (root_alphabeta e clock ts p uo b mvs bm bv al k)
     = fold (\<lambda>mv v. max v (minimax_min (MaxPly e) p (ApplyMove b mv) 1)) mvs bv"
proof (induction mvs arbitrary: bm bv al k)
  case Nil
  show ?case by simp
next
  case (Cons mv mvs)
  let ?tv = "minimax_min (MaxPly e) p (ApplyMove b mv) 1"
  obtain x y where r: "AlphaBetaMin e clock ts p uo (ApplyMove b mv) 1 al PInf k = (x, y)"
    by (cases "AlphaBetaMin e clock ts p uo (ApplyMove b mv) 1 al PInf k")
  with alphabeta_refines(3) [OF Cons.prems(1), of p uo "ApplyMove b mv" 1 al PInf k]
  obtain val where x: "x = Some val" and cv: "max al val = max al ?tv"
    by (auto simp: clamp_PInf)
  show ?case
  proof (cases "val > bv")
    case True
    with Cons.prems(2) have "al < val" by simp
    with cv have "val = ?tv" by (auto simp: max_def split: if_splits)
    with True have m: "max bv ?tv = val" by (simp add: max_absorb2)
    have "max al val \<le> val" using \<open>al < val\<close> by simp
    from Cons.IH [OF Cons.prems(1) this, of "Some mv" y] True m show ?thesis
      by (simp add: r x)
  next
    case False
    with Cons.prems(2) have "max al val \<le> bv" by simp
    with cv have "?tv \<le> bv" by simp
    then have m: "max bv ?tv = bv" by (simp add: max_absorb1)
    have "max al bv \<le> bv" using Cons.prems(2) by simp
    from Cons.IH [OF Cons.prems(1) this, of bm y] False m show ?thesis
      by (simp add: r x)
  qed
qed

text \<open>With \<open>bestVal\<close> at plus infinity no value is ever greater, whatever the clock does.\<close>

lemma root_minimax_PInf:
  "root_minimax e clock ts p b mvs None PInf k = (None, PInf)"
proof (induction mvs arbitrary: k)
  case Nil
  show ?case by simp
next
  case (Cons mv mvs)
  obtain x y where r: "MinValue e clock ts p (ApplyMove b mv) 1 k = (x, y)"
    by (cases "MinValue e clock ts p (ApplyMove b mv) 1 k")
  show ?case by (cases x) (simp_all add: r Cons.IH)
qed

lemma root_alphabeta_PInf:
  "root_alphabeta e clock ts p uo b mvs None PInf al k = (None, PInf)"
proof (induction mvs arbitrary: al k)
  case Nil
  show ?case by simp
next
  case (Cons mv mvs)
  obtain x y where r: "AlphaBetaMin e clock ts p uo (ApplyMove b mv) 1 al PInf k = (x, y)"
    by (cases "AlphaBetaMin e clock ts p uo (ApplyMove b mv) 1 al PInf k")
  show ?case by (cases x) (simp_all add: r Cons.IH)
qed

subsection \<open>Equal best values\<close>

lemma SearchToolBox_init_eq: "SearchToolBox_init s t p = Inr (new_engine s t p)"
  by (simp add: SearchToolBox_init_def)

definition best_value :: "engine \<Rightarrow> clock \<Rightarrow> gameboard \<Rightarrow> score option" where
  "best_value e clock board =
     (case ChooseMove_search e clock board of Inl err \<Rightarrow> None | Inr (bestMove, bestVal) \<Rightarrow> Some bestVal)"

definition reference_value :: "int \<Rightarrow> gameboard \<Rightarrow> score" where
  "reference_value max_ply board =
     fold (\<lambda>mv v. max v (minimax_min max_ply (PlayerToMove board) (ApplyMove board mv) 1))
       (GenerateLegalMoves board (PlayerToMove board))
       (if PlayerToMove board = Black then MInf else PInf)"

lemma engine_fields [simp]:
  "Strategy (new_engine s t p) = s" "TimeLimit (new_engine s t p) = t"
  "MaxPly (new_engine s t p) = p" "OrderingUsed (new_engine s t p) = (s = ''AlphaBetaOrdering'')"
  by (simp_all add: new_engine_def)

lemma unlimited_new_engine:
  "\<forall>k. clock k - clock 0 < t \<Longrightarrow> unlimited (new_engine s t p) clock (clock 0)"
  by (simp add: unlimited_def TimeRemaining_def)

text \<open>
  C1. When every reading of the clock stays within the time limit, the three
  strategies end \<open>ChooseMove\<close> with the same \<open>bestVal\<close> on every board and for every
  ply limit, and that value is the reference minimax value of the root.
\<close>

theorem strategies_same_best_value:
  assumes "\<forall>k. clock k - clock 0 < t"
  shows "best_value (new_engine ''Minimax'' t p) clock board = Some (reference_value p board)
       \<and> best_value (new_engine ''AlphaBeta'' t p) clock board = Some (reference_value p board)
       \<and> best_value (new_engine ''AlphaBetaOrdering'' t p) clock board
           = Some (reference_value p board)"
proof -
  define pl where "pl = PlayerToMove board"
  define bv where "bv = (if pl = Black then MInf else PInf)"
  define legal where "legal = GenerateLegalMoves board pl"
  note unl = unlimited_new_engine [OF assms]
  have ref: "reference_value p board
             = fold (\<lambda>mv v. max v (minimax_min p pl (ApplyMove board mv) 1)) legal bv"
    by (simp add: reference_value_def pl_def bv_def legal_def)
  have s1: "ChooseMove_search (new_engine ''Minimax'' t p) clock board
            = Inr (root_minimax (new_engine ''Minimax'' t p) clock (clock 0) pl board legal None bv 1)"
    by (simp add: ChooseMove_search_def Let_def pl_def bv_def legal_def)
  have s2: "ChooseMove_search (new_engine ''AlphaBeta'' t p) clock board
            = Inr (root_alphabeta (new_engine ''AlphaBeta'' t p) clock (clock 0) pl False board
                     legal None bv MInf 1)"
    by (simp add: ChooseMove_search_def Let_def pl_def bv_def legal_def)
  have s3: "ChooseMove_search (new_engine ''AlphaBetaOrdering'' t p) clock board
            = Inr (root_alphabeta (new_engine ''AlphaBetaOrdering'' t p) clock (clock 0) pl True board
                     (order_descending pl board legal) None bv MInf 1)"
    by (simp add: ChooseMove_search_def Let_def pl_def bv_def legal_def)
  have 1: "best_value (new_engine ''Minimax'' t p) clock board = Some (reference_value p board)"
    using root_minimax_value [OF unl, of "''Minimax''" p pl board legal None bv 1]
    by (simp add: best_value_def s1 ref case_prod_beta)
  have 2: "best_value (new_engine ''AlphaBeta'' t p) clock board = Some (reference_value p board)"
    using root_alphabeta_value [OF unl, of MInf bv "''AlphaBeta''" p pl False board legal None 1]
    by (simp add: best_value_def s2 ref case_prod_beta)
  have 3: "best_value (new_engine ''AlphaBetaOrdering'' t p) clock board
           = Some (reference_value p board)"
    using root_alphabeta_value [OF unl, of MInf bv "''AlphaBetaOrdering''" p pl True board
            "order_descending pl board legal" None 1]
    by (simp add: best_value_def s3 ref fold_max_descending case_prod_beta)
  from 1 2 3 show ?thesis by blast
qed

theorem strategies_same_best_value_witness:
  "best_value (new_engine ''Minimax'' 2 3) (\<lambda>k. 0) scenario_board
     = best_value (new_engine ''AlphaBeta'' 2 3) (\<lambda>k. 0) scenario_board
   \<and> best_value (new_engine ''AlphaBeta'' 2 3) (\<lambda>k. 0) scenario_board
     = best_value (new_engine ''AlphaBetaOrdering'' 2 3) (\<lambda>k. 0) scenario_board"
proof -
  have "\<forall>k :: nat. (\<lambda>k. 0 :: real) k - (\<lambda>k. 0) 0 < 2" by simp
  from strategies_same_best_value [OF this, of 3 scenario_board] show ?thesis by simp
qed

section \<open>Strategy names and the side to move at the root\<close>

text \<open>
  C7 as stated fails: the constructor accepts any strategy name and returns an engine.
\<close>

theorem unknown_strategy_accepted_counterexample:
  "SearchToolBox_init ''Quiescence'' 2 6
     = Inr \<lparr>Strategy = ''Quiescence'', TimeLimit = 2, MaxPly = 6, OrderingUsed = False\<rparr>"
  by (simp add: SearchToolBox_init_def new_engine_def)

text \<open>
  C7, amended. Construction succeeds for every strategy name. A name other than the
  three recognized ones is reported by \<open>ChooseMove\<close>, as a \<open>ValueError\<close>, when the side to
  move has a legal move; when it has none, \<open>ChooseMove\<close> answers "no move" without error.
\<close>

theorem unknown_strategy_raised_by_ChooseMove:
  assumes "s \<noteq> ''Minimax''" and "s \<noteq> ''AlphaBeta''" and "s \<noteq> ''AlphaBetaOrdering''"
  shows "SearchToolBox_init s t p = Inr (new_engine s t p)
       \<and> ChooseMove (new_engine s t p) clock board
           = (if GenerateLegalMoves board (PlayerToMove board) = [] then Inr None
              else Inl (ValueError (''Unknown strategy: '' @ s)))"
  using assms
  by (simp add: SearchToolBox_init_eq ChooseMove_def ChooseMove_search_def Let_def)

theorem unknown_strategy_raised_by_ChooseMove_witness:
  "ChooseMove (new_engine ''Quiescence'' 2 6) (\<lambda>k. 0) StartingGameBoard
     = Inl (ValueError ''Unknown strategy: Quiescence'')
   \<and> ChooseMove (new_engine ''Quiescence'' 2 6) (\<lambda>k. 0) \<lparr>Board = empty_grid, PlayerToMove = White\<rparr>
     = Inr None"
proof -
  have a: "GenerateLegalMoves StartingGameBoard (PlayerToMove StartingGameBoard) \<noteq> []"
    by code_simp
  have b: "GenerateLegalMoves \<lparr>Board = empty_grid, PlayerToMove = White\<rparr>
             (PlayerToMove \<lparr>Board = empty_grid, PlayerToMove = White\<rparr>) = []"
    by code_simp
  have n: "''Quiescence'' \<noteq> ''Minimax''" "''Quiescence'' \<noteq> ''AlphaBeta''"
    "''Quiescence'' \<noteq> ''AlphaBetaOrdering''" by simp_all
  from unknown_strategy_raised_by_ChooseMove [OF n, of 2 6 "\<lambda>k. 0" StartingGameBoard]
       unknown_strategy_raised_by_ChooseMove [OF n, of 2 6 "\<lambda>k. 0"
         "\<lparr>Board = empty_grid, PlayerToMove = White\<rparr>"] a b
  show ?thesis by simp
qed

subsection \<open>White to move at the root\<close>

lemma ChooseMove_white_to_move:
  assumes "PlayerToMove board = White"
    and "s = ''Minimax'' \<or> s = ''AlphaBeta'' \<or> s = ''AlphaBetaOrdering''"
  shows "ChooseMove (new_engine s t p) clock board = Inr None"
  using assms
  by (auto simp: ChooseMove_def ChooseMove_search_def Let_def root_minimax_PInf root_alphabeta_PInf)

text \<open>
  C3. On the standard starting position, where white is to move, \<open>ChooseMove\<close> answers
  "no move" with each of the three strategies, whatever the time limit and the clock:
  \<open>bestVal\<close> starts at plus infinity for a player other than \<open>'b'\<close>, and a move is only
  recorded when its value is greater than \<open>bestVal\<close>.
\<close>

theorem ChooseMove_starting_position_no_move:
  "ChooseMove (new_engine ''Minimax'' t 1) clock StartingGameBoard = Inr None
   \<and> ChooseMove (new_engine ''AlphaBeta'' t 1) clock StartingGameBoard = Inr None
   \<and> ChooseMove (new_engine ''AlphaBetaOrdering'' t 1) clock StartingGameBoard = Inr None"
proof -
  have "PlayerToMove StartingGameBoard = White" by (simp add: StartingGameBoard_def)
  then show ?thesis by (simp add: ChooseMove_white_to_move)
qed

subsection \<open>Black to move at the root\<close>

text \<open>
  With black to move on the starting layout the same call does return a simple move,
  as soon as the first time check passes.
\<close>

lemma root_minimax_keeps:
  assumes "\<exists>m. bm = Some m \<and> P m" and "\<forall>m \<in> set mvs. P m"
  shows "\<exists>m. fst (root_minimax e clock ts p b mvs bm bv k) = Some m \<and> P m"
  using assms
proof (induction mvs arbitrary: bm bv k)
  case Nil
  then show ?case by simp
next
  case (Cons mv mvs)
  obtain x y where r: "MinValue e clock ts p (ApplyMove b mv) 1 k = (x, y)"
    by (cases "MinValue e clock ts p (ApplyMove b mv) 1 k")
  show ?case
  proof (cases x)
    case None
    with Cons.prems(1) show ?thesis by (simp add: r)
  next
    case (Some val)
    have "\<exists>m. fst (root_minimax e clock ts p b mvs (Some mv) val y) = Some m \<and> P m"
      using Cons.prems(2) by (intro Cons.IH) simp_all
    moreover have "\<exists>m. fst (root_minimax e clock ts p b mvs bm bv y) = Some m \<and> P m"
      using Cons.prems by (intro Cons.IH) simp_all
    ultimately show ?thesis by (simp add: r Some)
  qed
qed

lemma root_alphabeta_keeps:
  assumes "\<exists>m. bm = Some m \<and> P m" and "\<forall>m \<in> set mvs. P m"
  shows "\<exists>m. fst (root_alphabeta e clock ts p uo b mvs bm bv al k) = Some m \<and> P m"
  using assms
proof (induction mvs arbitrary: bm bv al k)
  case Nil
  then show ?case by simp
next
  case (Cons mv mvs)
  obtain x y where r: "AlphaBetaMin e clock ts p uo (ApplyMove b mv) 1 al PInf k = (x, y)"
    by (cases "AlphaBetaMin e clock ts p uo (ApplyMove b mv) 1 al PInf k")
  show ?case
  proof (cases x)
    case None
    with Cons.prems(1) show ?thesis by (simp add: r)
  next
    case (Some val)
    have "\<exists>m. fst (root_alphabeta e clock ts p uo b mvs (Some mv) val (max al val) y) = Some m \<and> P m"
      using Cons.prems(2) by (intro Cons.IH) simp_all
    moreover have "\<exists>m. fst (root_alphabeta e clock ts p uo b mvs bm bv (max al bv) y) = Some m \<and> P m"
      using Cons.prems by (intro Cons.IH) simp_all
    ultimately show ?thesis by (simp add: r Some)
  qed
qed

lemma MInf_less_Fin: "MInf < Fin x"
  by (simp add: less_score_def)

lemma root_minimax_first:
  assumes "TimeRemaining e clock ts k" and "MaxPly e \<le> 1"
    and "\<forall>m \<in> set mvs. GoalTest (ApplyMove b m) = None \<and> P m" and "mvs \<noteq> []"
  shows "\<exists>m. fst (root_minimax e clock ts p b mvs None MInf k) = Some m \<and> P m"
proof -
  from assms(4) obtain mv rest where mvs: "mvs = mv # rest" by (cases mvs) auto
  with assms(3) have g: "GoalTest (ApplyMove b mv) = None" and pm: "P mv"
    and pr: "\<forall>m \<in> set rest. P m" by simp_all
  have v: "MinValue e clock ts p (ApplyMove b mv) 1 k
           = (Some (Fin (EvaluateFor (ApplyMove b mv) p)), Suc k)"
    using assms(1,2) g by (simp add: MinValue.simps [of e clock ts p "ApplyMove b mv" 1 k])
  have "\<exists>m. fst (root_minimax e clock ts p b rest (Some mv)
                    (Fin (EvaluateFor (ApplyMove b mv) p)) (Suc k)) = Some m \<and> P m"
    using pm pr by (intro root_minimax_keeps) simp_all
  then show ?thesis by (simp add: mvs v MInf_less_Fin)
qed

lemma root_alphabeta_first:
  assumes "TimeRemaining e clock ts k" and "MaxPly e \<le> 1"
    and "\<forall>m \<in> set mvs. GoalTest (ApplyMove b m) = None \<and> P m" and "mvs \<noteq> []"
  shows "\<exists>m. fst (root_alphabeta e clock ts p uo b mvs None MInf MInf k) = Some m \<and> P m"
proof -
  from assms(4) obtain mv rest where mvs: "mvs = mv # rest" by (cases mvs) auto
  with assms(3) have g: "GoalTest (ApplyMove b mv) = None" and pm: "P mv"
    and pr: "\<forall>m \<in> set rest. P m" by simp_all
  have v: "AlphaBetaMin e clock ts p uo (ApplyMove b mv) 1 MInf PInf k
           = (Some (Fin (EvaluateFor (ApplyMove b mv) p)), Suc k)"
    using assms(1,2) g
    by (simp add: AlphaBetaMin.simps [of e clock ts p uo "ApplyMove b mv" 1 MInf PInf k])
  have "\<exists>m. fst (root_alphabeta e clock ts p uo b rest (Some mv)
                    (Fin (EvaluateFor (ApplyMove b mv) p))
                    (max MInf (Fin (EvaluateFor (ApplyMove b mv) p))) (Suc k)) = Some m \<and> P m"
    using pm pr by (intro root_alphabeta_keeps) simp_all
  then show ?thesis by (simp add: mvs v MInf_less_Fin)
qed

definition black_start :: gameboard where
  "black_start = \<lparr>Board = CreateStartingBoard, PlayerToMove = Black\<rparr>"

lemma ChooseMove_black_to_move_start:
  assumes "clock 1 - clock 0 < t"
    and "s = ''Minimax'' \<or> s = ''AlphaBeta'' \<or> s = ''AlphaBetaOrdering''"
  shows "\<exists>m. ChooseMove (new_engine s t 1) clock black_start = Inr (Some m)
             \<and> captures m = [] \<and> length (sequence m) = 1"
proof -
  let ?legal = "GenerateLegalMoves black_start Black"
  let ?P = "\<lambda>m. captures m = [] \<and> length (sequence m) = 1"
  have pl: "PlayerToMove black_start = Black" by (simp add: black_start_def)
  have ne: "?legal \<noteq> []" by code_simp
  have "list_all (\<lambda>m. GoalTest (ApplyMove black_start m) = None \<and> simple_shape m) ?legal"
    by code_simp
  then have all: "\<forall>m \<in> set ?legal. GoalTest (ApplyMove black_start m) = None \<and> ?P m"
    by (simp add: list_all_iff simple_shape_def)
  have tr: "TimeRemaining (new_engine s t 1) clock (clock 0) 1"
    using assms(1) by (simp add: TimeRemaining_def)
  have so1: "set (order_descending Black black_start ?legal) = set ?legal"
    by (simp add: order_descending_def)
  have "length (order_descending Black black_start ?legal) = length ?legal"
    by (simp add: order_descending_def)
  with ne have so2: "order_descending Black black_start ?legal \<noteq> []" by auto
  note so = so1 so2
  from assms(2) consider "s = ''Minimax''" | "s = ''AlphaBeta''" | "s = ''AlphaBetaOrdering''"
    by blast
  then show ?thesis
  proof cases
    case 1
    from root_minimax_first [OF tr _ all ne, of Black] ne show ?thesis
      by (auto simp: ChooseMove_def ChooseMove_search_def Let_def pl 1 case_prod_beta)
  next
    case 2
    from root_alphabeta_first [OF tr _ all ne, of Black False] ne show ?thesis
      by (auto simp: ChooseMove_def ChooseMove_search_def Let_def pl 2 case_prod_beta)
  next
    case 3
    from all so(1) have all': "\<forall>m \<in> set (order_descending Black black_start ?legal).
        GoalTest (ApplyMove black_start m) = None \<and> ?P m" by simp
    from root_alphabeta_first [OF tr _ all' so(2), of Black True] ne show ?thesis
      by (auto simp: ChooseMove_def ChooseMove_search_def Let_def pl 3 case_prod_beta)
  qed
qed

section \<open>The object store of \<open>Clone\<close> and \<open>ApplyMove\<close>\<close>

text \<open>
  A \<open>GameBoard\<close> object refers to the list \<open>self.Board\<close>, which refers to its eight
  rows; the lists are mutable objects and \<open>ApplyMove\<close> writes into rows. The store is
  the list of the objects allocated so far, an address is a position in it, and an
  allocation appends. Square contents and player symbols are immutable values.
\<close>

type_synonym addr = nat

datatype obj =
    RowObj "piece option list"
  | GridObj "addr list"
  | BoardObj addr side

type_synonym heap = "obj list"

definition get_obj :: "heap \<Rightarrow> addr \<Rightarrow> obj option" where
  "get_obj h a = (if a < length h then Some (h ! a) else None)"

text \<open>Python list indexing: a negative index counts from the end, an index outside
  \<open>-n .. n-1\<close> raises IndexError (here \<open>None\<close>).\<close>

definition py_index :: "nat \<Rightarrow> int \<Rightarrow> nat option" where
  "py_index n i =
     (if 0 \<le> i \<and> i < int n then Some (nat i)
      else if - int n \<le> i \<and> i < 0 then Some (nat (int n + i))
      else None)"

text \<open>\<open>grid[r][c]\<close> and \<open>grid[r][c] = v\<close> for the list object at address \<open>ga\<close>.\<close>

definition heap_cell :: "heap \<Rightarrow> addr \<Rightarrow> square \<Rightarrow> piece option option" where
  "heap_cell h ga sq =
     (case get_obj h ga of
        Some (GridObj rows) \<Rightarrow>
          (case py_index (length rows) (fst sq) of
             None \<Rightarrow> None
           | Some i \<Rightarrow>
               (case get_obj h (rows ! i) of
                  Some (RowObj cells) \<Rightarrow>
                    (case py_index (length cells) (snd sq) of
                       None \<Rightarrow> None
                     | Some j \<Rightarrow> Some (cells ! j))
                | _ \<Rightarrow> None))
      | _ \<Rightarrow> None)"

definition heap_put :: "heap \<Rightarrow> addr \<Rightarrow> square \<Rightarrow> piece option \<Rightarrow> heap option" where
  "heap_put h ga sq v =
     (case get_obj h ga of
        Some (GridObj rows) \<Rightarrow>
          (case py_index (length rows) (fst sq) of
             None \<Rightarrow> None
           | Some i \<Rightarrow>
               (case get_obj h (rows ! i) of
                  Some (RowObj cells) \<Rightarrow>
                    (case py_index (length cells) (snd sq) of
                       None \<Rightarrow> None
                     | Some j \<Rightarrow> Some (h[rows ! i := RowObj (cells[j := v])]))
                | _ \<Rightarrow> None))
      | _ \<Rightarrow> None)"

text \<open>The board value that an address stands for.\<close>

definition load_row :: "heap \<Rightarrow> addr \<Rightarrow> piece option list option" where
  "load_row h a = (case get_obj h a of Some (RowObj cells) \<Rightarrow> Some cells | _ \<Rightarrow> None)"

definition load_grid :: "heap \<Rightarrow> addr \<Rightarrow> grid option" where
  "load_grid h ga =
     (case get_obj h ga of Some (GridObj rows) \<Rightarrow> those (map (load_row h) rows) | _ \<Rightarrow> None)"

definition load_board :: "heap \<Rightarrow> addr \<Rightarrow> gameboard option" where
  "load_board h a =
     (case get_obj h a of
        Some (BoardObj ga pl) \<Rightarrow>
          (case load_grid h ga of
             None \<Rightarrow> None
           | Some g \<Rightarrow> Some \<lparr>Board = g, PlayerToMove = pl\<rparr>)
      | _ \<Rightarrow> None)"

text \<open>
  \<open>copy.deepcopy(self.Board)\<close>: every row object is copied once (the memo maps a row
  already copied to its copy), then the outer list; \<open>Clone\<close> wraps the copy in a new
  \<open>GameBoard\<close> that has the same \<open>PlayerToMove\<close>.
\<close>

fun copy_rows :: "heap \<Rightarrow> (addr \<times> addr) list \<Rightarrow> addr list \<Rightarrow> (addr list \<times> heap) option" where
  "copy_rows h memo [] = Some ([], h)"
| "copy_rows h memo (a # as) =
     (case map_of memo a of
        Some a' \<Rightarrow>
          (case copy_rows h memo as of
             None \<Rightarrow> None
           | Some (rows', h') \<Rightarrow> Some (a' # rows', h'))
      | None \<Rightarrow>
          (case get_obj h a of
             Some (RowObj cells) \<Rightarrow>
               (case copy_rows (h @ [RowObj cells]) ((a, length h) # memo) as of
                  None \<Rightarrow> None
                | Some (rows', h') \<Rightarrow> Some (length h # rows', h'))
           | _ \<Rightarrow> None))"

definition Clone_heap :: "heap \<Rightarrow> addr \<Rightarrow> (addr \<times> heap) option" where
  "Clone_heap h self =
     (case get_obj h self of
        Some (BoardObj ga pl) \<Rightarrow>
          (case get_obj h ga of
             Some (GridObj rows) \<Rightarrow>
               (case copy_rows h [] rows of
                  None \<Rightarrow> None
                | Some (rows', h1) \<Rightarrow>
                    Some (Suc (length h1), h1 @ [GridObj rows', BoardObj (length h1) pl]))
           | _ \<Rightarrow> None)
      | _ \<Rightarrow> None)"

text \<open>
  \<open>ApplyMove\<close> on the store: the writes go through \<open>nb.Board\<close>, the read of
  \<open>PlayerToMove\<close> for the flip goes through \<open>self\<close>.
\<close>

fun heap_clear :: "heap \<Rightarrow> addr \<Rightarrow> square list \<Rightarrow> heap option" where
  "heap_clear h ga [] = Some h"
| "heap_clear h ga (c # cs) =
     (case heap_put h ga c None of None \<Rightarrow> None | Some h' \<Rightarrow> heap_clear h' ga cs)"

definition ApplyMove_heap :: "heap \<Rightarrow> addr \<Rightarrow> move \<Rightarrow> (addr \<times> heap) option" where
  "ApplyMove_heap h self mv =
     (case Clone_heap h self of
        None \<Rightarrow> None
      | Some (nb, h1) \<Rightarrow>
          (case get_obj h1 nb of
             Some (BoardObj ga pl) \<Rightarrow>
               (case heap_cell h1 ga (start mv) of
                  None \<Rightarrow> None
                | Some pc \<Rightarrow>
                    (case heap_put h1 ga (start mv) None of
                       None \<Rightarrow> None
                     | Some h2 \<Rightarrow>
                         (case heap_put h2 ga (last_landing mv) pc of
                            None \<Rightarrow> None
                          | Some h3 \<Rightarrow>
                              (case heap_clear h3 ga (captures mv) of
                                 None \<Rightarrow> None
                               | Some h4 \<Rightarrow>
                                   (case (if pc = Some Wman \<and> fst (last_landing mv) = 0
                                          then heap_put h4 ga (last_landing mv) (Some Wking)
                                          else Some h4) of
                                      None \<Rightarrow> None
                                    | Some h5 \<Rightarrow>
                                        (case (if pc = Some Bman
                                                  \<and> fst (last_landing mv) = BOARD_SIZE - 1
                                               then heap_put h5 ga (last_landing mv) (Some Bking)
                                               else Some h5) of
                                           None \<Rightarrow> None
                                         | Some h6 \<Rightarrow>
                                             (case get_obj h6 self of
                                                Some (BoardObj sga spl) \<Rightarrow>
                                                  Some (nb, h6[nb := BoardObj ga (OpponentOf spl)])
                                              | _ \<Rightarrow> None)))))))
           | _ \<Rightarrow> None))"

text \<open>
  An address stands for a board when it holds a \<open>GameBoard\<close> whose grid is a list of
  distinct row objects with the contents of the board's rows. Boards made by the
  constructor or by \<open>Clone\<close> are of this kind.
\<close>

definition heap_board :: "heap \<Rightarrow> addr \<Rightarrow> gameboard \<Rightarrow> bool" where
  "heap_board h a bd =
     (wf_grid (Board bd) \<and>
      (case get_obj h a of
         Some (BoardObj ga pl) \<Rightarrow>
           pl = PlayerToMove bd \<and>
           (case get_obj h ga of
              Some (GridObj rows) \<Rightarrow>
                distinct rows \<and> map (get_obj h) rows = map (\<lambda>r. Some (RowObj r)) (Board bd)
            | _ \<Rightarrow> False)
       | _ \<Rightarrow> False))"

text \<open>The addresses of the objects that make up the board at an address.\<close>

definition board_addrs :: "heap \<Rightarrow> addr \<Rightarrow> addr list" where
  "board_addrs h a =
     (case get_obj h a of
        Some (BoardObj ga pl) \<Rightarrow>
          (case get_obj h ga of Some (GridObj rows) \<Rightarrow> a # ga # rows | _ \<Rightarrow> [a, ga])
      | _ \<Rightarrow> [a])"

subsection \<open>Cloning\<close>

lemma get_obj_append: "a < length h \<Longrightarrow> get_obj (h @ xs) a = get_obj h a"
  by (simp add: get_obj_def nth_append)

lemma get_obj_Some_less: "get_obj h a = Some x \<Longrightarrow> a < length h"
  by (simp add: get_obj_def split: if_splits)

definition fresh_addrs :: "nat \<Rightarrow> nat \<Rightarrow> addr list" where
  "fresh_addrs n k = [n ..< n + k]"

lemma fresh_addrs_0: "fresh_addrs n 0 = []"
  by (simp add: fresh_addrs_def)

lemma fresh_addrs_Suc: "fresh_addrs n (Suc k) = n # fresh_addrs (Suc n) k"
  by (simp add: fresh_addrs_def upt_rec)

lemma fresh_addrs_props:
  "length (fresh_addrs n k) = k" "distinct (fresh_addrs n k)"
  "i < k \<Longrightarrow> fresh_addrs n k ! i = n + i" "set (fresh_addrs n k) = {n ..< n + k}"
  by (simp_all add: fresh_addrs_def)

lemma copy_rows_distinct:
  assumes "map (get_obj h) rows = map (\<lambda>r. Some (RowObj r)) g" and "distinct rows"
    and "set rows \<inter> fst ` set memo = {}"
  shows "copy_rows h memo rows = Some (fresh_addrs (length h) (length rows), h @ map RowObj g)"
  using assms
proof (induction rows arbitrary: h memo g)
  case Nil
  then show ?case by (simp add: fresh_addrs_0)
next
  case (Cons a as)
  from Cons.prems(1) obtain r g' where g: "g = r # g'" by (cases g) auto
  from Cons.prems(1) have a: "get_obj h a = Some (RowObj r)"
    and as: "map (get_obj h) as = map (\<lambda>r. Some (RowObj r)) g'"
    by (simp_all add: g)
  from Cons.prems(3) have "a \<notin> fst ` set memo" by auto
  then have m: "map_of memo a = None" by (simp add: map_of_eq_None_iff)
  have "map (get_obj (h @ [RowObj r])) as = map (get_obj h) as"
  proof (rule map_cong [OF refl])
    fix x assume "x \<in> set as"
    with as have "\<exists>y. get_obj h x = Some y"
      by (metis (no_types, lifting) in_set_conv_nth length_map nth_map)
    then show "get_obj (h @ [RowObj r]) x = get_obj h x"
      by (auto dest: get_obj_Some_less simp: get_obj_append)
  qed
  with as have 1: "map (get_obj (h @ [RowObj r])) as = map (\<lambda>r. Some (RowObj r)) g'" by simp
  have 2: "distinct as" using Cons.prems(2) by simp
  have 3: "set as \<inter> fst ` set ((a, length h) # memo) = {}"
    using Cons.prems(2,3) by auto
  have "copy_rows (h @ [RowObj r]) ((a, length h) # memo) as
        = Some (fresh_addrs (length (h @ [RowObj r])) (length as),
                (h @ [RowObj r]) @ map RowObj g')"
    by (rule Cons.IH [OF 1 2 3])
  then show ?case
    by (simp add: m a g fresh_addrs_Suc)
qed

text \<open>The store after cloning a board with grid \<open>g\<close> and player \<open>pl\<close> on top of \<open>h\<close>.\<close>

definition cloned :: "heap \<Rightarrow> grid \<Rightarrow> side \<Rightarrow> heap" where
  "cloned h g pl =
     h @ map RowObj g
       @ [GridObj (fresh_addrs (length h) (length g)), BoardObj (length h + length g) pl]"

lemma heap_boardD:
  assumes "heap_board h a bd"
  obtains ga rows where "get_obj h a = Some (BoardObj ga (PlayerToMove bd))"
    and "get_obj h ga = Some (GridObj rows)" and "distinct rows"
    and "map (get_obj h) rows = map (\<lambda>r. Some (RowObj r)) (Board bd)"
    and "wf_grid (Board bd)"
  using assms
  by (auto simp: heap_board_def split: option.splits obj.splits)

lemma Clone_heap_cloned:
  assumes "heap_board h self bd"
  shows "Clone_heap h self
         = Some (Suc (length h + length (Board bd)), cloned h (Board bd) (PlayerToMove bd))"
proof -
  from assms obtain ga rows where o: "get_obj h self = Some (BoardObj ga (PlayerToMove bd))"
    and g: "get_obj h ga = Some (GridObj rows)" and d: "distinct rows"
    and r: "map (get_obj h) rows = map (\<lambda>r. Some (RowObj r)) (Board bd)"
    by (rule heap_boardD)
  from r have len: "length rows = length (Board bd)"
    by (metis length_map)
  have "copy_rows h [] rows
        = Some (fresh_addrs (length h) (length rows), h @ map RowObj (Board bd))"
    by (rule copy_rows_distinct [OF r d]) simp
  then show ?thesis
    by (simp add: Clone_heap_def o g len cloned_def)
qed

lemma cloned_length: "length (cloned h g pl) = Suc (Suc (length h + length g))"
  by (simp add: cloned_def)

lemma cloned_old: "a < length h \<Longrightarrow> get_obj (cloned h g pl) a = get_obj h a"
  by (simp add: cloned_def get_obj_append)

lemma cloned_take: "take (length h) (cloned h g pl) = h"
  by (simp add: cloned_def)

lemma cloned_row: "i < length g \<Longrightarrow> get_obj (cloned h g pl) (length h + i) = Some (RowObj (g ! i))"
  by (simp add: cloned_def get_obj_def nth_append)

lemma cloned_grid:
  "get_obj (cloned h g pl) (length h + length g) = Some (GridObj (fresh_addrs (length h) (length g)))"
  by (simp add: cloned_def get_obj_def nth_append)

lemma cloned_board:
  "get_obj (cloned h g pl) (Suc (length h + length g)) = Some (BoardObj (length h + length g) pl)"
  by (simp add: cloned_def get_obj_def nth_append)

lemma cloned_set_player:
  "(cloned h g pl)[Suc (length h + length g) := BoardObj (length h + length g) pl'] = cloned h g pl'"
  by (simp add: cloned_def list_update_append)

lemma py_index_InBounds:
  "InBounds (r, c) \<Longrightarrow> py_index 8 r = Some (nat r) \<and> py_index 8 c = Some (nat c)"
  by (simp add: py_index_def InBounds.simps BOARD_SIZE_def)

lemma wf_grid_lengths: "wf_grid g \<Longrightarrow> length g = 8 \<and> (\<forall>i < 8. length (g ! i) = 8)"
  by (simp add: wf_grid_def list_all_length)

lemma heap_cell_cloned:
  assumes "wf_grid g" and "InBounds sq"
  shows "heap_cell (cloned h g pl) (length h + length g) sq = Some (cell g sq)"
proof -
  obtain r c where sq: "sq = (r, c)" by (cases sq)
  from assms have i: "nat r < 8" "nat c < 8"
    by (auto simp: sq InBounds.simps BOARD_SIZE_def)
  note l = wf_grid_lengths [OF assms(1)]
  from i l have row: "get_obj (cloned h g pl) (length h + nat r) = Some (RowObj (g ! nat r))"
    by (intro cloned_row) simp
  have gr: "get_obj (cloned h g pl) (length h + 8) = Some (GridObj (fresh_addrs (length h) 8))"
    using cloned_grid [of h g pl] l by simp
  show ?thesis
    using py_index_InBounds [of r c] assms(2) i l row
    by (simp add: heap_cell_def gr fresh_addrs_props sq cell.simps)
qed

lemma heap_put_cloned:
  assumes "wf_grid g" and "InBounds sq"
  shows "heap_put (cloned h g pl) (length h + length g) sq v = Some (cloned h (put g sq v) pl)"
proof -
  obtain r c where sq: "sq = (r, c)" by (cases sq)
  from assms have i: "nat r < 8" "nat c < 8"
    by (auto simp: sq InBounds.simps BOARD_SIZE_def)
  note l = wf_grid_lengths [OF assms(1)]
  from i l have row: "get_obj (cloned h g pl) (length h + nat r) = Some (RowObj (g ! nat r))"
    by (intro cloned_row) simp
  have upd: "(cloned h g pl)[length h + nat r := RowObj ((g ! nat r)[nat c := v])]
             = cloned h (put g sq v) pl"
    using i l by (simp add: cloned_def list_update_append map_update sq put.simps)
  have gr: "get_obj (cloned h g pl) (length h + 8) = Some (GridObj (fresh_addrs (length h) 8))"
    using cloned_grid [of h g pl] l by simp
  show ?thesis
    using py_index_InBounds [of r c] assms(2) i l row upd
    by (simp add: heap_put_def gr fresh_addrs_props sq)
qed

lemma heap_clear_cloned:
  "wf_grid g \<Longrightarrow> \<forall>c \<in> set cs. InBounds c \<Longrightarrow>
   heap_clear (cloned h g pl) (length h + length g) cs
     = Some (cloned h (fold (\<lambda>c g. put g c None) cs g) pl)"
proof (induction cs arbitrary: g)
  case Nil
  show ?case by simp
next
  case (Cons c cs)
  have len: "length (put g c None) = length g"
    using wf_grid_lengths [OF Cons.prems(1)] wf_grid_lengths [OF wf_put [OF Cons.prems(1), of c None]]
    by simp
  from Cons.prems have "heap_put (cloned h g pl) (length h + length g) c None
                        = Some (cloned h (put g c None) pl)"
    by (intro heap_put_cloned) simp_all
  moreover have "heap_clear (cloned h (put g c None) pl) (length h + length (put g c None)) cs
     = Some (cloned h (fold (\<lambda>c g. put g c None) cs (put g c None)) pl)"
    using Cons.prems by (intro Cons.IH) (simp_all add: wf_put)
  ultimately show ?case by (simp add: len)
qed

lemma those_map_Some: "those (map Some xs) = Some xs"
  by (induction xs) simp_all

lemma load_rows_cloned:
  "map (get_obj (cloned h g pl)) (fresh_addrs (length h) (length g)) = map (\<lambda>r. Some (RowObj r)) g"
  by (rule nth_equalityI) (simp_all add: fresh_addrs_props cloned_row)

lemma heap_board_load:
  assumes "heap_board h a bd"
  shows "load_board h a = Some bd"
proof -
  from assms obtain ga rows where o: "get_obj h a = Some (BoardObj ga (PlayerToMove bd))"
    and g: "get_obj h ga = Some (GridObj rows)"
    and r: "map (get_obj h) rows = map (\<lambda>r. Some (RowObj r)) (Board bd)"
    by (rule heap_boardD)
  have "map (load_row h) rows = map Some (Board bd)"
  proof (rule nth_equalityI)
    show "length (map (load_row h) rows) = length (map Some (Board bd))"
      using r by (metis length_map)
  next
    fix i assume "i < length (map (load_row h) rows)"
    then have i: "i < length rows" by simp
    with r have "get_obj h (rows ! i) = Some (RowObj (Board bd ! i))"
      by (metis length_map nth_map)
    with i r show "map (load_row h) rows ! i = map Some (Board bd) ! i"
      by (metis (no_types, lifting) length_map load_row_def nth_map obj.simps(10) option.simps(5))
  qed
  then show ?thesis
    by (simp add: load_board_def load_grid_def o g those_map_Some)
qed

lemma heap_board_cloned_new:
  assumes "wf_grid g"
  shows "heap_board (cloned h g pl) (Suc (length h + length g)) \<lparr>Board = g, PlayerToMove = pl\<rparr>"
  using assms
  by (simp add: heap_board_def cloned_board cloned_grid fresh_addrs_props load_rows_cloned)

lemma heap_board_cloned_old:
  assumes "heap_board h a bd"
  shows "heap_board (cloned h g pl) a bd"
proof -
  from assms obtain ga rows where o: "get_obj h a = Some (BoardObj ga (PlayerToMove bd))"
    and g: "get_obj h ga = Some (GridObj rows)" and d: "distinct rows"
    and r: "map (get_obj h) rows = map (\<lambda>r. Some (RowObj r)) (Board bd)"
    and wf: "wf_grid (Board bd)"
    by (rule heap_boardD)
  have "map (get_obj (cloned h g pl)) rows = map (get_obj h) rows"
  proof (rule map_cong [OF refl])
    fix x assume "x \<in> set rows"
    with r have "\<exists>y. get_obj h x = Some y"
      by (metis (no_types, lifting) in_set_conv_nth length_map nth_map)
    then show "get_obj (cloned h g pl) x = get_obj h x"
      by (auto dest: get_obj_Some_less simp: cloned_old)
  qed
  with r have r': "map (get_obj (cloned h g pl)) rows = map (\<lambda>r. Some (RowObj r)) (Board bd)"
    by simp
  from o g have "get_obj (cloned h g pl) a = Some (BoardObj ga (PlayerToMove bd))"
    and "get_obj (cloned h g pl) ga = Some (GridObj rows)"
    by (simp_all add: cloned_old get_obj_Some_less)
  with d r' wf show ?thesis by (simp add: heap_board_def)
qed

lemma board_addrs_old:
  assumes "heap_board h a bd"
  shows "\<forall>x \<in> set (board_addrs h a). x < length h"
proof -
  from assms obtain ga rows where o: "get_obj h a = Some (BoardObj ga (PlayerToMove bd))"
    and g: "get_obj h ga = Some (GridObj rows)"
    and r: "map (get_obj h) rows = map (\<lambda>r. Some (RowObj r)) (Board bd)"
    by (rule heap_boardD)
  have "x < length h" if "x \<in> set rows" for x
  proof -
    from that r have "\<exists>y. get_obj h x = Some y"
      by (metis (no_types, lifting) in_set_conv_nth length_map nth_map)
    then show ?thesis by (auto dest: get_obj_Some_less)
  qed
  with o g show ?thesis
    by (auto simp: board_addrs_def dest: get_obj_Some_less)
qed

lemma board_addrs_cloned_new:
  "\<forall>x \<in> set (board_addrs (cloned h g pl) (Suc (length h + length g))). length h \<le> x"
  by (auto simp: board_addrs_def cloned_board cloned_grid fresh_addrs_props)

subsection \<open>\<open>ApplyMove\<close> on the store\<close>

lemma cloned8:
  assumes "wf_grid g"
  shows "InBounds sq \<Longrightarrow> heap_cell (cloned h g pl) (length h + 8) sq = Some (cell g sq)"
    and "InBounds sq \<Longrightarrow> heap_put (cloned h g pl) (length h + 8) sq v = Some (cloned h (put g sq v) pl)"
    and "\<forall>c \<in> set cs. InBounds c \<Longrightarrow>
           heap_clear (cloned h g pl) (length h + 8) cs
             = Some (cloned h (fold (\<lambda>c g. put g c None) cs g) pl)"
    and "get_obj (cloned h g pl) (Suc (length h + 8)) = Some (BoardObj (length h + 8) pl)"
    and "(cloned h g pl)[Suc (length h + 8) := BoardObj (length h + 8) pl'] = cloned h g pl'"
  using heap_cell_cloned [OF assms, of sq h pl] heap_put_cloned [OF assms, of sq h pl v]
    heap_clear_cloned [OF assms, of cs h pl] cloned_board [of h g pl]
    cloned_set_player [of h g pl pl'] wf_grid_lengths [OF assms]
  by simp_all

lemma ApplyMove_heap_cloned:
  assumes hb: "heap_board h self bd" and bs: "InBounds (start m)" and bl: "InBounds (last_landing m)"
    and bc: "\<forall>c \<in> set (captures m). InBounds c"
  shows "ApplyMove_heap h self m
         = Some (Suc (length h + 8),
                 cloned h (Board (ApplyMove bd m)) (OpponentOf (PlayerToMove bd)))"
proof -
  from hb obtain ga rows where o: "get_obj h self = Some (BoardObj ga (PlayerToMove bd))"
    and wf: "wf_grid (Board bd)"
    by (rule heap_boardD)
  define pl where "pl = PlayerToMove bd"
  define pc where "pc = cell (Board bd) (start m)"
  define l where "l = last_landing m"
  define g1 where "g1 = put (Board bd) (start m) None"
  define g2 where "g2 = put g1 l pc"
  define g3 where "g3 = fold (\<lambda>c g. put g c None) (captures m) g2"
  define g4 where "g4 = (if pc = Some Wman \<and> fst l = 0 then put g3 l (Some Wking) else g3)"
  define g5 where "g5 = (if pc = Some Bman \<and> fst l = BOARD_SIZE - 1
                         then put g4 l (Some Bking) else g4)"
  have am: "ApplyMove bd m = \<lparr>Board = g5, PlayerToMove = OpponentOf pl\<rparr>"
    by (simp add: ApplyMove_def Let_def g5_def g4_def g3_def g2_def g1_def l_def pc_def pl_def)
  have bl': "InBounds l" using bl by (simp add: l_def)
  have wf1: "wf_grid g1" using wf by (simp add: g1_def wf_put)
  have wf2: "wf_grid g2" using wf1 by (simp add: g2_def wf_put)
  have wf3: "wf_grid g3" unfolding g3_def using wf2 by (rule wf_fold_clear)
  have wf4: "wf_grid g4" using wf3 by (simp add: g4_def wf_put)
  have wf5: "wf_grid g5" using wf4 by (simp add: g5_def wf_put)
  have len: "length (Board bd) = 8" using wf_grid_lengths [OF wf] by simp
  have c0: "Clone_heap h self = Some (Suc (length h + 8), cloned h (Board bd) pl)"
    using Clone_heap_cloned [OF hb] by (simp add: len pl_def)
  have s0: "get_obj (cloned h (Board bd) pl) (Suc (length h + 8)) = Some (BoardObj (length h + 8) pl)"
    by (rule cloned8(4) [OF wf])
  have s1: "heap_cell (cloned h (Board bd) pl) (length h + 8) (start m) = Some pc"
    unfolding pc_def by (rule cloned8(1) [OF wf bs])
  have s2: "heap_put (cloned h (Board bd) pl) (length h + 8) (start m) None = Some (cloned h g1 pl)"
    unfolding g1_def by (rule cloned8(2) [OF wf bs])
  have s3: "heap_put (cloned h g1 pl) (length h + 8) l pc = Some (cloned h g2 pl)"
    unfolding g2_def by (rule cloned8(2) [OF wf1 bl'])
  have s4: "heap_clear (cloned h g2 pl) (length h + 8) (captures m) = Some (cloned h g3 pl)"
    unfolding g3_def by (rule cloned8(3) [OF wf2 bc])
  have s5: "(if pc = Some Wman \<and> fst l = 0
             then heap_put (cloned h g3 pl) (length h + 8) l (Some Wking)
             else Some (cloned h g3 pl)) = Some (cloned h g4 pl)"
    using cloned8(2) [OF wf3 bl', of h pl "Some Wking"] by (simp add: g4_def)
  have s6: "(if pc = Some Bman \<and> fst l = BOARD_SIZE - 1
             then heap_put (cloned h g4 pl) (length h + 8) l (Some Bking)
             else Some (cloned h g4 pl)) = Some (cloned h g5 pl)"
    using cloned8(2) [OF wf4 bl', of h pl "Some Bking"] by (simp add: g5_def)
  have s7: "get_obj (cloned h g5 pl) self = Some (BoardObj ga pl)"
    using o get_obj_Some_less [OF o] by (simp add: cloned_old pl_def)
  have s8: "(cloned h g5 pl)[Suc (length h + 8) := BoardObj (length h + 8) (OpponentOf pl)]
            = cloned h g5 (OpponentOf pl)"
    by (rule cloned8(5) [OF wf5])
  have "ApplyMove_heap h self m = Some (Suc (length h + 8), cloned h g5 (OpponentOf pl))"
    unfolding ApplyMove_heap_def c0 option.case prod.case s0 obj.case s1 s2
      l_def [symmetric] s3 s4 s5 s6 s7 s8 ..
  then show ?thesis by (simp add: am pl_def)
qed

lemma board_addrs_cloned_old:
  assumes "heap_board h a bd"
  shows "board_addrs (cloned h g pl) a = board_addrs h a"
proof -
  from assms obtain ga rows where o: "get_obj h a = Some (BoardObj ga (PlayerToMove bd))"
    and g: "get_obj h ga = Some (GridObj rows)"
    by (rule heap_boardD)
  from o g have "get_obj (cloned h g pl) a = Some (BoardObj ga (PlayerToMove bd))"
    and "get_obj (cloned h g pl) ga = Some (GridObj rows)"
    by (simp_all add: cloned_old get_obj_Some_less)
  with o g show ?thesis by (simp add: board_addrs_def)
qed

text \<open>
  C6. For a board in the store and a generated move, \<open>ApplyMove\<close> returns, every
  object that existed before the call is unchanged, so the address of the input board
  still stands for the same board value (same squares and same side to move, hence the
  same answers of \<open>GoalTest\<close> and \<open>GenerateLegalMoves\<close>); the successor is a new board
  object made of new row objects, it holds the value computed by \<open>ApplyMove\<close>, and that
  value differs from the input.
\<close>

theorem ApplyMove_leaves_input_unchanged:
  assumes hb: "heap_board h self bd" and m: "m \<in> set (GenerateLegalMoves bd player)"
  shows "\<exists>nb h'. ApplyMove_heap h self m = Some (nb, h')
           \<and> take (length h) h' = h
           \<and> load_board h' self = load_board h self
           \<and> load_board h' self = Some bd
           \<and> heap_board h' nb (ApplyMove bd m)
           \<and> (\<forall>x \<in> set (board_addrs h' nb). length h \<le> x)
           \<and> (\<forall>x \<in> set (board_addrs h' self). x < length h)
           \<and> ApplyMove bd m \<noteq> bd"
proof -
  from hb have wf: "wf_grid (Board bd)" by (rule heap_boardD)
  note og = GenerateLegalMoves_on_grid [OF wf m]
  then have seq: "sequence m \<noteq> []" by (simp add: on_grid_def)
  then have l: "last_landing m = last (sequence m)" by (simp add: last_landing_eq)
  let ?g = "Board (ApplyMove bd m)" and ?pl = "OpponentOf (PlayerToMove bd)"
  let ?h' = "cloned h ?g ?pl"
  have am: "ApplyMove bd m = \<lparr>Board = ?g, PlayerToMove = ?pl\<rparr>"
    by (simp add: ApplyMove_def Let_def)
  have wf': "wf_grid ?g"
    using wf by (simp add: ApplyMove_def Let_def wf_put wf_fold_clear)
  then have len: "length ?g = 8" using wf_grid_lengths by simp
  have 1: "ApplyMove_heap h self m = Some (Suc (length h + 8), ?h')"
    using og by (intro ApplyMove_heap_cloned [OF hb]) (simp_all add: on_grid_def l)
  have 2: "take (length h) ?h' = h" by (rule cloned_take)
  have old: "heap_board ?h' self bd" by (rule heap_board_cloned_old [OF hb])
  have 3: "load_board ?h' self = Some bd" by (rule heap_board_load [OF old])
  have 4: "load_board h self = Some bd" by (rule heap_board_load [OF hb])
  have 5: "heap_board ?h' (Suc (length h + 8)) (ApplyMove bd m)"
    using heap_board_cloned_new [OF wf', of h ?pl] by (simp add: len am [symmetric])
  have 6: "\<forall>x \<in> set (board_addrs ?h' (Suc (length h + 8))). length h \<le> x"
    using board_addrs_cloned_new [of h ?g ?pl] by (simp add: len)
  have 7: "\<forall>x \<in> set (board_addrs ?h' self). x < length h"
    using board_addrs_old [OF hb] by (simp add: board_addrs_cloned_old [OF hb])
  have 8: "ApplyMove bd m \<noteq> bd"
  proof
    assume "ApplyMove bd m = bd"
    then have "PlayerToMove (ApplyMove bd m) = PlayerToMove bd" by simp
    then show False by (simp add: ApplyMove_def Let_def OpponentOf_def split: if_splits)
  qed
  from 1 2 3 4 5 6 7 8 show ?thesis by auto
qed

definition scenario_heap :: heap where
  "scenario_heap =
     map RowObj (Board scenario_board) @ [GridObj [0, 1, 2, 3, 4, 5, 6, 7], BoardObj 8 White]"

theorem ApplyMove_leaves_input_unchanged_witness:
  "heap_board scenario_heap 9 scenario_board
   \<and> scenario_move \<in> set (GenerateLegalMoves scenario_board White)
   \<and> (\<exists>nb h'. ApplyMove_heap scenario_heap 9 scenario_move = Some (nb, h')
         \<and> take 10 h' = scenario_heap
         \<and> load_board h' 9 = Some scenario_board
         \<and> heap_board h' nb (ApplyMove scenario_board scenario_move)
         \<and> nb \<noteq> 9)"
proof -
  have a: "heap_board scenario_heap 9 scenario_board" by code_simp
  have b: "scenario_move \<in> set (GenerateLegalMoves scenario_board White)" by code_simp
  have c: "length scenario_heap = 10" by code_simp
  have d: "set (board_addrs h' nb) \<noteq> {} \<and> nb \<in> set (board_addrs h' nb)" for h' nb
    by (simp add: board_addrs_def split: option.splits obj.splits)
  from ApplyMove_leaves_input_unchanged [OF a b] obtain nb h'
    where "ApplyMove_heap scenario_heap 9 scenario_move = Some (nb, h')"
      and "take (length scenario_heap) h' = scenario_heap"
      and "load_board h' 9 = Some scenario_board"
      and "heap_board h' nb (ApplyMove scenario_board scenario_move)"
      and "\<forall>x \<in> set (board_addrs h' nb). length scenario_heap \<le> x"
    by blast
  moreover from this d [of h' nb] have "nb \<noteq> 9" by (auto simp: c)
  ultimately show ?thesis using a b by (auto simp: c)
qed


end
